theory Spec2Isabelle
  imports Main
begin

section \<open>Python strings\<close>

text \<open>
  The translator of \<^verbatim>\<open>src/runna_sync.py\<close> works on Python \<^verbatim>\<open>str\<close> values.  A \<^verbatim>\<open>str\<close> is
  a sequence of Unicode code points; the model is \<^typ>\<open>string\<close>, whose characters are the
  code points \<open>0 .. 255\<close> (Latin-1).  On that range the classes below are the ones of CPython:
  \<^verbatim>\<open>str.isspace\<close> and the regular expression class \<^verbatim>\<open>\s\<close> agree, \<^verbatim>\<open>\d\<close> is \<open>0-9\<close>,
  \<^verbatim>\<open>\w\<close> is the alphanumeric code points and the underscore, and \<^verbatim>\<open>str.lower\<close> maps a
  character to a character.  Inputs with code points above 255 are outside the model; the two
  literals of the source that contain such code points are kept as lists of code points.

  Python integers are unbounded (\<^typ>\<open>nat\<close> here, every parsed number is a run of digits);
  the interpreter's limit on the number of digits of an \<^verbatim>\<open>int\<close>/\<^verbatim>\<open>str\<close> conversion is a
  configuration of the interpreter and is not modelled.
\<close>

abbreviation NL :: char where "NL \<equiv> CHR 0x0A"

definition is_space :: "char \<Rightarrow> bool" where
  "is_space c = (let n = (of_char c :: nat) in
     (9 \<le> n \<and> n \<le> 13) \<or> (28 \<le> n \<and> n \<le> 32) \<or> n = 133 \<or> n = 160)"

definition is_digit :: "char \<Rightarrow> bool" where
  "is_digit c = (let n = (of_char c :: nat) in 48 \<le> n \<and> n \<le> 57)"

definition is_word :: "char \<Rightarrow> bool" where
  "is_word c = (let n = (of_char c :: nat) in
     (48 \<le> n \<and> n \<le> 57) \<or> (65 \<le> n \<and> n \<le> 90) \<or> n = 95 \<or> (97 \<le> n \<and> n \<le> 122) \<or>
     n = 170 \<or> n = 178 \<or> n = 179 \<or> n = 181 \<or> n = 185 \<or> n = 186 \<or>
     (188 \<le> n \<and> n \<le> 190) \<or> (192 \<le> n \<and> n \<le> 214) \<or> (216 \<le> n \<and> n \<le> 246) \<or>
     (248 \<le> n \<and> n \<le> 255))"

definition is_linebreak :: "char \<Rightarrow> bool" where
  "is_linebreak c = (let n = (of_char c :: nat) in
     (10 \<le> n \<and> n \<le> 13) \<or> (28 \<le> n \<and> n \<le> 30) \<or> n = 133)"

definition lower_char :: "char \<Rightarrow> char" where
  "lower_char c = (let n = (of_char c :: nat) in
     if (65 \<le> n \<and> n \<le> 90) \<or> (192 \<le> n \<and> n \<le> 214) \<or> (216 \<le> n \<and> n \<le> 222)
     then char_of (n + 32) else c)"

definition lower :: "string \<Rightarrow> string" where
  "lower s = map lower_char s"

text \<open>\<^verbatim>\<open>s.strip()\<close>, \<^verbatim>\<open>s.rstrip()\<close> and \<^verbatim>\<open>s.rstrip(ch)\<close>.\<close>

definition rstrip_with :: "(char \<Rightarrow> bool) \<Rightarrow> string \<Rightarrow> string" where
  "rstrip_with p s = rev (dropWhile p (rev s))"

definition rstrip :: "string \<Rightarrow> string" where
  "rstrip s = rstrip_with is_space s"

definition strip :: "string \<Rightarrow> string" where
  "strip s = rstrip (dropWhile is_space s)"

text \<open>\<^verbatim>\<open>s.startswith(p)\<close> and \<^verbatim>\<open>p in s\<close>.\<close>

fun startswith :: "'a list \<Rightarrow> 'a list \<Rightarrow> bool" where
  "startswith s [] = True"
| "startswith [] (p # ps) = False"
| "startswith (c # cs) (p # ps) = (if c = p then startswith cs ps else False)"

fun contains :: "'a list \<Rightarrow> 'a list \<Rightarrow> bool" where
  "contains p [] = (p = [])"
| "contains p (c # cs) = (startswith (c # cs) p \<or> contains p cs)"

text \<open>\<^verbatim>\<open>s.split(",")\<close>: one more part than there are commas.\<close>

fun split_char :: "char \<Rightarrow> string \<Rightarrow> string list" where
  "split_char d [] = [[]]"
| "split_char d (c # cs) =
     (case split_char d cs of
        p # ps \<Rightarrow> if c = d then [] # p # ps else (c # p) # ps
      | [] \<Rightarrow> [[c]])"

text \<open>
  \<^verbatim>\<open>s.splitlines()\<close>: a line ends at each line boundary, \<^verbatim>\<open>\r\n\<close> is one boundary, and a
  boundary at the very end opens no further line.  \<open>skip\<close> is set right after a carriage
  return, \<open>acc\<close> is the current line, reversed.
\<close>

fun splitlines_from :: "bool \<Rightarrow> string \<Rightarrow> string \<Rightarrow> string list" where
  "splitlines_from skip acc [] = (if acc = [] then [] else [rev acc])"
| "splitlines_from skip acc (c # cs) =
     (if skip \<and> c = NL then splitlines_from False acc cs
      else if is_linebreak c then rev acc # splitlines_from (c = CHR 0x0D) [] cs
      else splitlines_from False (c # acc) cs)"

definition splitlines :: "string \<Rightarrow> string list" where
  "splitlines s = splitlines_from False [] s"

text \<open>\<^verbatim>\<open>sep.join(xs)\<close>.\<close>

fun join :: "string \<Rightarrow> string list \<Rightarrow> string" where
  "join sep [] = []"
| "join sep [x] = x"
| "join sep (x # y # ys) = x @ sep @ join sep (y # ys)"

text \<open>\<^verbatim>\<open>int(s)\<close> on a run of digits and \<^verbatim>\<open>str(n)\<close>.\<close>

definition digit_val :: "char \<Rightarrow> nat" where
  "digit_val c = of_char c - 48"

definition int_of_digits :: "string \<Rightarrow> nat" where
  "int_of_digits ds = foldl (\<lambda>a c. 10 * a + digit_val c) 0 ds"

definition digit_char :: "nat \<Rightarrow> char" where
  "digit_char d = char_of (48 + d)"

fun str_of_nat :: "nat \<Rightarrow> string" where
  "str_of_nat n = (if n < 10 then [digit_char n] else str_of_nat (n div 10) @ [digit_char (n mod 10)])"

declare str_of_nat.simps [simp del]

section \<open>Regular expressions of the translator\<close>

text \<open>
  Each pattern of the source is modelled by a matcher anchored at one position, and
  \<^verbatim>\<open>re.search\<close> tries the positions from left to right.  A matcher gets the character before
  the position (for \<^verbatim>\<open>\b\<close>) and the text from the position on.  In every pattern below a
  greedy run (\<^verbatim>\<open>\d+\<close>, \<^verbatim>\<open>\s*\<close>, \<^verbatim>\<open>[^)]*\<close>, \<^verbatim>\<open>.*\<close>) is followed by something that no
  character of the run can match, so the only way to match is with the longest run and the
  matcher needs no backtracking.
\<close>

fun re_search :: "(char option \<Rightarrow> string \<Rightarrow> 'a option) \<Rightarrow> char option \<Rightarrow> string \<Rightarrow> 'a option" where
  "re_search m prev [] = m prev []"
| "re_search m prev (c # cs) =
     (case m prev (c # cs) of Some r \<Rightarrow> Some r | None \<Rightarrow> re_search m (Some c) cs)"

definition search :: "(char option \<Rightarrow> string \<Rightarrow> 'a option) \<Rightarrow> string \<Rightarrow> 'a option" where
  "search m s = re_search m None s"

text \<open>
  \<^verbatim>\<open>\b\<close> holds between the character \<open>prev\<close> (if any) and the text \<open>s\<close> when exactly
  one of the two sides is a word character.
\<close>

definition next_is_word :: "string \<Rightarrow> bool" where
  "next_is_word s = (case s of [] \<Rightarrow> False | c # _ \<Rightarrow> is_word c)"

definition prev_is_word :: "char option \<Rightarrow> bool" where
  "prev_is_word prev = (case prev of None \<Rightarrow> False | Some c \<Rightarrow> is_word c)"

text \<open>A literal of lower-case ASCII under \<^verbatim>\<open>re.IGNORECASE\<close>.\<close>

fun ci_startswith :: "string \<Rightarrow> string \<Rightarrow> bool" where
  "ci_startswith s [] = True"
| "ci_startswith [] (p # ps) = False"
| "ci_startswith (c # cs) (p # ps) = (if lower_char c = p then ci_startswith cs ps else False)"

text \<open>
  \<^verbatim>\<open>PACE_RE = (\d+:\d{2})/km\<close> and \<^verbatim>\<open>RANGE_RE = (\d+:\d{2})-(\d+:\d{2})/km\<close>.
  \<open>clock_at\<close> matches \<^verbatim>\<open>\d+:\d{2}\<close> and gives the matched text and the rest.
\<close>

definition clock_at :: "string \<Rightarrow> (string \<times> string) option" where
  "clock_at s = (let ds = takeWhile is_digit s; r = dropWhile is_digit s in
     if ds \<noteq> [] \<and> length r \<ge> 3 \<and> r ! 0 = CHR '':'' \<and> is_digit (r ! 1) \<and> is_digit (r ! 2)
     then Some (ds @ take 3 r, drop 3 r) else None)"

definition pace_at :: "char option \<Rightarrow> string \<Rightarrow> string option" where
  "pace_at prev s = (case clock_at s of None \<Rightarrow> None
     | Some c \<Rightarrow> if startswith (snd c) ''/km'' then Some (fst c) else None)"

definition range_at :: "char option \<Rightarrow> string \<Rightarrow> (string \<times> string) option" where
  "range_at prev s = (case clock_at s of None \<Rightarrow> None
     | Some c1 \<Rightarrow>
        if startswith (snd c1) ''-'' then
          (case clock_at (drop 1 (snd c1)) of None \<Rightarrow> None
           | Some c2 \<Rightarrow> if startswith (snd c2) ''/km'' then Some (fst c1, fst c2) else None)
        else None)"

text \<open>\<^verbatim>\<open>KM_RE = (\d+(?:\.\d+)?)\s*km\b\<close>, ignoring case.\<close>

definition km_at :: "char option \<Rightarrow> string \<Rightarrow> string option" where
  "km_at prev s = (let d1 = takeWhile is_digit s; r1 = dropWhile is_digit s in
     if d1 = [] then None
     else
       let frac = (length r1 \<ge> 2 \<and> r1 ! 0 = CHR ''.'' \<and> is_digit (r1 ! 1));
           g = (if frac then d1 @ [CHR ''.''] @ takeWhile is_digit (drop 1 r1) else d1);
           r2 = (if frac then dropWhile is_digit (drop 1 r1) else r1);
           r3 = dropWhile is_space r2
       in if ci_startswith r3 ''km'' \<and> \<not> next_is_word (drop 2 r3) then Some g else None)"

text \<open>
  \<^verbatim>\<open>M_DIST_RE = MIN_RE = (\d+)\s*m\b\<close> and \<^verbatim>\<open>SEC_RE = (\d+)\s*s\b\<close>, ignoring case: the
  unit letter is a parameter.
\<close>

definition unit_at :: "char \<Rightarrow> char option \<Rightarrow> string \<Rightarrow> string option" where
  "unit_at u prev s = (let ds = takeWhile is_digit s; r = dropWhile is_space (dropWhile is_digit s) in
     if ds \<noteq> [] \<and> ci_startswith r [u] \<and> \<not> next_is_word (drop 1 r) then Some ds else None)"

text \<open>\<^verbatim>\<open>\b(\d+)s\b\<close> and \<^verbatim>\<open>\b(\d+)m\b\<close> of the downhill rule, case-sensitive.\<close>

definition bounded_unit_at :: "char \<Rightarrow> char option \<Rightarrow> string \<Rightarrow> string option" where
  "bounded_unit_at u prev s = (let ds = takeWhile is_digit s; r = dropWhile is_digit s in
     if ds \<noteq> [] \<and> \<not> prev_is_word prev \<and> startswith r [u] \<and> \<not> next_is_word (drop 1 r)
     then Some ds else None)"

text \<open>
  The tail \<^verbatim>\<open>\s*:?\s*$\<close> of the two header patterns: white space with at most one colon
  in it, up to the end of the text.
\<close>

definition header_tail :: "string \<Rightarrow> bool" where
  "header_tail r = (let r1 = dropWhile is_space r;
       r2 = (if startswith r1 '':'' then drop 1 r1 else r1)
     in dropWhile is_space r2 = [])"

text \<open>\<^verbatim>\<open>REPS_RE = ^\s*(\d+)\s*reps of\s*:?\s*$\<close>, ignoring case, with \<^verbatim>\<open>match\<close>.\<close>

definition reps_match :: "string \<Rightarrow> string option" where
  "reps_match s = (let r0 = dropWhile is_space s; ds = takeWhile is_digit r0;
       r1 = dropWhile is_space (dropWhile is_digit r0)
     in if ds \<noteq> [] \<and> ci_startswith r1 ''reps of'' \<and> header_tail (drop 7 r1) then Some ds else None)"

text \<open>\<^verbatim>\<open>REPEAT_FOLLOWING_RE = ^\s*repeat the following\s+(\d+)x\s*:?\s*$\<close>, ignoring case.\<close>

definition repeat_following_match :: "string \<Rightarrow> string option" where
  "repeat_following_match s = (let r0 = dropWhile is_space s; r1 = drop 20 r0;
       r2 = dropWhile is_space r1; ds = takeWhile is_digit r2; r3 = dropWhile is_digit r2
     in if ci_startswith r0 ''repeat the following'' \<and> r1 \<noteq> [] \<and> is_space (hd r1) \<and> ds \<noteq> [] \<and>
           ci_startswith r3 ''x'' \<and> header_tail (drop 1 r3)
        then Some ds else None)"

text \<open>\<^verbatim>\<open>SEP_LINE_RE = ^\s*-{3,}\s*$\<close> with \<^verbatim>\<open>match\<close>.\<close>

definition sep_line_match :: "string \<Rightarrow> bool" where
  "sep_line_match s = (let r0 = dropWhile is_space s;
       dashes = takeWhile (\<lambda>c. c = CHR ''-'') r0; r1 = dropWhile (\<lambda>c. c = CHR ''-'') r0
     in length dashes \<ge> 3 \<and> dropWhile is_space r1 = [])"

section \<open>Line cleaning and field extraction\<close>

text \<open>
  \<^verbatim>\<open>re.sub(pattern, "", s)\<close> for a pattern that matches no empty text: \<open>m\<close> gives the length
  of the match at a position, \<open>k\<close> counts the characters of a match still to be removed.
\<close>

fun sub_all :: "(string \<Rightarrow> nat option) \<Rightarrow> nat \<Rightarrow> string \<Rightarrow> string" where
  "sub_all m k [] = []"
| "sub_all m k (c # cs) =
     (if 0 < k then sub_all m (k - 1) cs
      else case m (c # cs) of Some n \<Rightarrow> sub_all m (n - 1) cs | None \<Rightarrow> c # sub_all m 0 cs)"

text \<open>\<^verbatim>\<open>\(no faster than[^)]*\)\<close>, ignoring case.\<close>

definition no_faster_at :: "string \<Rightarrow> nat option" where
  "no_faster_at s =
     (if ci_startswith s ''(no faster than'' then
        (let r = drop 15 s; body = takeWhile (\<lambda>c. c \<noteq> CHR '')'') r in
         if length body < length r then Some (15 + length body + 1) else None)
      else None)"

text \<open>
  A pattern that ends in \<^verbatim>\<open>$\<close> matches at most once, and what is left of the text after
  the match is empty or the final newline (\<^verbatim>\<open>$\<close> also matches just before a newline that
  ends the text).  The matcher returns what is left.
\<close>

fun sub_tail :: "(char option \<Rightarrow> string \<Rightarrow> string option) \<Rightarrow> char option \<Rightarrow> string \<Rightarrow> string" where
  "sub_tail m prev [] = []"
| "sub_tail m prev (c # cs) =
     (case m prev (c # cs) of Some left \<Rightarrow> left | None \<Rightarrow> c # sub_tail m (Some c) cs)"

text \<open>\<^verbatim>\<open>\b<phrase>\b.*$\<close>, ignoring case; the dot matches no newline.\<close>

definition phrase_to_end_at :: "string \<Rightarrow> char option \<Rightarrow> string \<Rightarrow> string option" where
  "phrase_to_end_at phrase prev s =
     (if \<not> prev_is_word prev \<and> ci_startswith s phrase then
        (let r = drop (length phrase) s; left = dropWhile (\<lambda>c. c \<noteq> NL) r in
         if \<not> next_is_word r \<and> (left = [] \<or> left = [NL]) then Some left else None)
      else None)"

text \<open>\<^verbatim>\<open>\brun at whatever pace feels truly easy!?$\<close>, ignoring case.\<close>

definition truly_easy_at :: "char option \<Rightarrow> string \<Rightarrow> string option" where
  "truly_easy_at prev s =
     (if \<not> prev_is_word prev \<and> ci_startswith s ''run at whatever pace feels truly easy'' then
        (let r = drop 37 s; left = (if startswith r ''!'' then drop 1 r else r) in
         if left = [] \<or> left = [NL] then Some left else None)
      else None)"

text \<open>
  \<^verbatim>\<open>clean_line\<close>.  The bullet of the source is the three code points \<open>U+00E2 U+20AC U+00A2\<close>;
  only its first character is removed.
\<close>

definition BULLET :: "nat list" where
  "BULLET = [0xE2, 0x20AC, 0xA2]"

definition clean_line :: "string \<Rightarrow> string" where
  "clean_line s0 = (let s1 = strip s0;
       s2 = (if startswith (map of_char s1) BULLET then strip (drop 1 s1) else s1);
       s3 = strip (sub_all no_faster_at 0 s2);
       s4 = strip (sub_tail (phrase_to_end_at ''this is a limit'') None s3);
       s5 = strip (sub_tail (phrase_to_end_at ''not a target'') None s4);
       s6 = strip (sub_tail truly_easy_at None s5)
     in strip (rstrip_with (\<lambda>c. c = CHR ''.'' \<or> is_space c) s6))"

text \<open>\<^verbatim>\<open>split_on_commas\<close>.\<close>

definition split_on_commas :: "string \<Rightarrow> string list" where
  "split_on_commas line = (let parts = map strip (filter (\<lambda>p. strip p \<noteq> []) (split_char CHR '','' line))
     in if parts \<noteq> [] then parts else [strip line])"

subsection \<open>Floating point of \<^verbatim>\<open>meters_to_km_str\<close>\<close>

text \<open>
  \<^verbatim>\<open>meters / 1000.0\<close> converts the integer to a double, divides two doubles, and
  \<^verbatim>\<open>f"{km:.3f}"\<close> prints the quotient with three decimals.  All three steps round to the
  nearest value, ties to even.  A positive double is a pair \<open>(m, e)\<close> that stands for
  \<open>m * 2 ^ e\<close>.  The conversion raises \<^verbatim>\<open>OverflowError\<close> when the integer rounds to
  \<open>2 ^ 1024\<close> or more.
\<close>

datatype py_error = OverflowError

fun bitlen :: "nat \<Rightarrow> nat" where
  "bitlen n = (if n = 0 then 0 else Suc (bitlen (n div 2)))"

declare bitlen.simps [simp del]

definition round_half_even :: "nat \<Rightarrow> nat \<Rightarrow> nat" where
  "round_half_even a b = (let q = a div b; r = a mod b in
     if 2 * r < b then q else if b < 2 * r then q + 1 else if even q then q else q + 1)"

definition int_to_double :: "nat \<Rightarrow> py_error + (nat \<times> int)" where
  "int_to_double n = (let b = bitlen n in
     if b \<le> 53 then Inr (n, 0)
     else let sh = b - 53; m = round_half_even n (2 ^ sh) in
       if (2::nat) ^ 1024 \<le> m * 2 ^ sh then Inl OverflowError else Inr (m, int sh))"

text \<open>The double nearest to \<open>a / b\<close>, for a quotient in the normal range.\<close>

definition div_double :: "nat \<Rightarrow> nat \<Rightarrow> nat \<times> int" where
  "div_double a b = (if a = 0 then (0, 0) else
     let la = bitlen a; lb = bitlen b;
         k = (if (lb \<le> la \<and> b * 2 ^ (la - lb) \<le> a) \<or> (la < lb \<and> b \<le> a * 2 ^ (lb - la))
              then int la - int lb else int la - int lb - 1);
         e = k - 52
     in if 0 \<le> e then (round_half_even a (b * 2 ^ nat e), e)
        else (round_half_even (a * 2 ^ nat (- e)) b, e))"

definition pad3 :: "nat \<Rightarrow> string" where
  "pad3 n = [digit_char (n div 100), digit_char (n div 10 mod 10), digit_char (n mod 10)]"

definition format_3f :: "nat \<times> int \<Rightarrow> string" where
  "format_3f d =
     (let n = (if 0 \<le> snd d then fst d * 2 ^ nat (snd d) * 1000
               else round_half_even (fst d * 1000) (2 ^ nat (- snd d)))
      in str_of_nat (n div 1000) @ ''.'' @ pad3 (n mod 1000))"

definition meters_to_km_str :: "nat \<Rightarrow> py_error + string" where
  "meters_to_km_str meters = (case int_to_double meters of
       Inl err \<Rightarrow> Inl err
     | Inr d \<Rightarrow>
         let km = div_double (fst d * 2 ^ nat (snd d)) 1000;
             s = rstrip_with (\<lambda>c. c = CHR ''.'') (rstrip_with (\<lambda>c. c = CHR ''0'') (format_3f km))
         in Inr (s @ ''km''))"

subsection \<open>Distance, duration, noise, hills, zones\<close>

definition parse_distance :: "string \<Rightarrow> py_error + string option" where
  "parse_distance line = (case search km_at line of
       Some g \<Rightarrow> Inr (Some (g @ ''km''))
     | None \<Rightarrow>
        (case search (unit_at CHR ''m'') line of
           Some ds \<Rightarrow> (case meters_to_km_str (int_of_digits ds) of
                        Inl err \<Rightarrow> Inl err | Inr s \<Rightarrow> Inr (Some s))
         | None \<Rightarrow> Inr None))"

definition parse_duration :: "string \<Rightarrow> string option" where
  "parse_duration line = (case search (unit_at CHR ''s'') line of
       Some ds \<Rightarrow> Some (str_of_nat (int_of_digits ds) @ ''s'')
     | None \<Rightarrow>
        (case search (unit_at CHR ''m'') line of
           Some ds \<Rightarrow> Some (str_of_nat (int_of_digits ds) @ ''m'')
         | None \<Rightarrow> None))"

text \<open>Truthiness of an \<^verbatim>\<open>Optional[str]\<close>, and \<^verbatim>\<open>x or default\<close>.\<close>

definition truthy :: "string option \<Rightarrow> bool" where
  "truthy x = (case x of None \<Rightarrow> False | Some s \<Rightarrow> s \<noteq> [])"

definition or_default :: "string option \<Rightarrow> string \<Rightarrow> string" where
  "or_default x d = (case x of None \<Rightarrow> d | Some s \<Rightarrow> if s = [] then d else s)"

text \<open>
  \<^verbatim>\<open>NOISE_SUBSTRINGS\<close>: the second entry is the code points \<open>U+00F0 U+0178 U+201C U+00B2\<close>.
\<close>

definition NOISE_SUBSTRINGS :: "nat list list" where
  "NOISE_SUBSTRINGS = [map of_char ''view in the runna app'', [0xF0, 0x178, 0x201C, 0xB2]]"

definition is_noise :: "string \<Rightarrow> bool" where
  "is_noise line = (let ll = map of_char (lower line) in list_ex (\<lambda>x. contains x ll) NOISE_SUBSTRINGS)"

definition is_hills_by_text :: "string \<Rightarrow> bool" where
  "is_hills_by_text full_description = (let t = lower full_description in
     list_ex (\<lambda>k. contains k t)
       [''hill'', ''uphill'', ''downhill'', ''jog back down'', ''jog downhill'', ''base of hill''])"

definition conversational_zone :: "string \<Rightarrow> string \<Rightarrow> string" where
  "conversational_zone workout_name context = (let wn = lower workout_name in
     if context = ''warmup'' \<or> context = ''cooldown'' then ''Z1-Z3 Pace''
     else if contains ''long run'' wn then ''Z1-Z2 Pace''
     else ''Z1-Z3 Pace'')"

definition single_line_easy_zone :: string where
  "single_line_easy_zone = ''Z2-Z3 Pace''"

section \<open>The translator state machine\<close>

datatype TState = NORMAL | REPEAT_OPEN | REPEAT_SEP_WAIT_OPEN | REPEAT_SEP_CAPTURE

text \<open>
  A step is a Python string object.  The source keeps \<^verbatim>\<open>id(step)\<close> of some steps in the set
  \<^verbatim>\<open>cooldown_steps\<close> and later tests \<^verbatim>\<open>id(step) in self.cooldown_steps\<close>, so a step of the
  model carries its identity beside its text.  Every f-string and every concatenation makes a
  new object, which gets the next unused identity; the literal \<^verbatim>\<open>"- 2m Z1-Z2 Pace"\<close> of
  \<^verbatim>\<open>_add_hills_fallback_if_needed\<close> is one object of identity 0.  Every step whose identity
  is put into \<^verbatim>\<open>cooldown_steps\<close> stays referenced by its group until the translation ends,
  so no later object can take its identity.
\<close>

record step =
  step_id :: nat
  step_text :: string

record group =
  title :: string
  steps :: "step list"

record machine =
  workout_name :: string
  full_description :: string
  hills_mode :: bool
  groups :: "group list"
  current :: group
  partial :: bool
  state :: TState
  repeat_group :: "group option"
  repeat_first_step_pending :: bool
  hills_fallback_added :: bool
  cooldown_steps :: "nat set"
  next_id :: nat

definition FALLBACK_STEP :: step where
  "FALLBACK_STEP = \<lparr>step_id = 0, step_text = ''- 2m Z1-Z2 Pace''\<rparr>"

definition init_machine :: "string \<Rightarrow> string \<Rightarrow> machine" where
  "init_machine name description =
     \<lparr>workout_name = name, full_description = description,
      hills_mode = is_hills_by_text description,
      groups = [], current = \<lparr>title = ''Main Set'', steps = []\<rparr>, partial = False,
      state = NORMAL, repeat_group = None, repeat_first_step_pending = False,
      hills_fallback_added = False, cooldown_steps = {}, next_id = 1\<rparr>"

definition new_str :: "string \<Rightarrow> machine \<Rightarrow> step \<times> machine" where
  "new_str s st = (\<lparr>step_id = next_id st, step_text = s\<rparr>, st\<lparr>next_id := Suc (next_id st)\<rparr>)"

definition flush_current :: "machine \<Rightarrow> machine" where
  "flush_current st =
     (if steps (current st) \<noteq> [] then st\<lparr>groups := groups st @ [current st]\<rparr> else st)
       \<lparr>current := \<lparr>title = ''Main Set'', steps = []\<rparr>\<rparr>"

definition start_group :: "string \<Rightarrow> machine \<Rightarrow> machine" where
  "start_group t st = (flush_current st)\<lparr>current := \<lparr>title = t, steps = []\<rparr>\<rparr>"

definition start_repeat_group :: "nat \<Rightarrow> machine \<Rightarrow> machine" where
  "start_repeat_group reps st = (flush_current st)
     \<lparr>repeat_group := Some \<lparr>title = ''Main Set '' @ str_of_nat reps @ ''x'', steps = []\<rparr>,
      repeat_first_step_pending := True\<rparr>"

definition close_repeat_group :: "machine \<Rightarrow> machine" where
  "close_repeat_group st =
     (case repeat_group st of
        Some g \<Rightarrow> if steps g \<noteq> [] then st\<lparr>groups := groups st @ [g]\<rparr> else st
      | None \<Rightarrow> st)
       \<lparr>repeat_group := None, repeat_first_step_pending := False\<rparr>"

definition add_hills_fallback_if_needed :: "machine \<Rightarrow> machine" where
  "add_hills_fallback_if_needed st =
     (if hills_mode st \<and> \<not> hills_fallback_added st
      then st\<lparr>current := (current st)\<lparr>steps := steps (current st) @ [FALLBACK_STEP]\<rparr>,
              hills_fallback_added := True\<rparr>
      else st)"

text \<open>The group a step goes to: the open repeat group if asked for and there is one.\<close>

definition target_repeat :: "bool \<Rightarrow> machine \<Rightarrow> group option" where
  "target_repeat into_repeat st = (if into_repeat then repeat_group st else None)"

definition add_step :: "step \<Rightarrow> bool \<Rightarrow> machine \<Rightarrow> machine" where
  "add_step s into_repeat st =
     (case target_repeat into_repeat st of
        Some g \<Rightarrow>
          if hills_mode st \<and> repeat_first_step_pending st then
            (let a = new_str (if startswith (step_text s) ''- ''
                              then ''- run uphill '' @ drop 2 (step_text s)
                              else ''run uphill '' @ step_text s) st
             in (snd a)\<lparr>repeat_first_step_pending := False,
                          repeat_group := Some (g\<lparr>steps := steps g @ [fst a]\<rparr>)\<rparr>)
          else st\<lparr>repeat_group := Some (g\<lparr>steps := steps g @ [s]\<rparr>)\<rparr>
      | None \<Rightarrow> st\<lparr>current := (current st)\<lparr>steps := steps (current st) @ [s]\<rparr>\<rparr>)"

text \<open>\<^verbatim>\<open>self._add_step(f"...", into_repeat=...)\<close>: the f-string is a new object.\<close>

definition emit :: "string \<Rightarrow> bool \<Rightarrow> machine \<Rightarrow> machine" where
  "emit txt into_repeat st = (let a = new_str txt st in add_step (fst a) into_repeat (snd a))"

text \<open>The duration of the downhill jog (lines 374 to 383 of the source).\<close>

definition jog_dur :: "step list \<Rightarrow> string" where
  "jog_dur prev_steps =
     (if prev_steps = [] then ''120s''
      else let prev = step_text (last prev_steps) in
        case search (bounded_unit_at CHR ''s'') prev of
          Some ds \<Rightarrow> str_of_nat (int_of_digits ds * 2) @ ''s''
        | None \<Rightarrow>
           (case search (bounded_unit_at CHR ''m'') prev of
              Some ds \<Rightarrow> str_of_nat (int_of_digits ds * 2) @ ''m''
            | None \<Rightarrow> ''120s''))"

definition prev_steps_of :: "bool \<Rightarrow> machine \<Rightarrow> step list" where
  "prev_steps_of into_repeat st =
     (case target_repeat into_repeat st of Some g \<Rightarrow> steps g | None \<Rightarrow> steps (current st))"

definition FAST_BURSTS_HINT :: string where
  "FAST_BURSTS_HINT = ''add 3x 15s fast bursts''"

text \<open>
  \<^verbatim>\<open>_process_fragment\<close>, in two parts: the rules from the distance and pace rule on (line 397
  of the source to the end of the function) are \<open>process_distance_rules\<close>.
\<close>

definition process_distance_rules :: "string \<Rightarrow> bool \<Rightarrow> machine \<Rightarrow> py_error + machine" where
  "process_distance_rules line into_repeat st =
     (let ll = lower line in
      case parse_distance line of
        Inl err \<Rightarrow> Inl err
      | Inr dist \<Rightarrow>
         (let rng = search range_at line; pace = search pace_at line in
            if truthy dist \<and> rng \<noteq> None then
              (let lo = fst (the rng); hi = snd (the rng) in
                 Inr (emit (''- '' @ the dist @ '' '' @ lo @ ''/km PACE ('' @ lo @ ''-'' @ hi @ ''/km) Pace'')
                        into_repeat st))
            else if truthy dist \<and> pace \<noteq> None then
              Inr (emit (''- '' @ the dist @ '' '' @ the pace @ ''/km Pace'') into_repeat st)
            else if truthy dist \<and> contains ''conversational'' ll then
              Inr (emit (''- '' @ the dist @ '' '' @ conversational_zone (workout_name st) ''main'')
                     into_repeat st)
            else if truthy dist \<and> (contains ''easy run'' ll \<or>
                      (startswith (lower (workout_name st)) ''easy run'' \<and> contains ''easy'' ll)) then
              Inr (emit (''- '' @ the dist @ '' '' @ single_line_easy_zone) into_repeat st)
            else if truthy dist then
              Inr (emit (''- '' @ the dist @ '' Z1-Z2 Pace'') into_repeat st)
            else if truthy (parse_duration line) then
              Inr (emit (''- '' @ the (parse_duration line) @ '' Z1-Z2 Pace'') into_repeat st)
            else Inr (add_hills_fallback_if_needed (st\<lparr>partial := True\<rparr>))))"

definition process_fragment :: "string \<Rightarrow> bool \<Rightarrow> bool \<Rightarrow> machine \<Rightarrow> py_error + machine" where
  "process_fragment frag allow_group_change into_repeat st =
     (let line = clean_line frag in
      if line = [] \<or> is_noise line \<or> sep_line_match line then Inr st
      else let ll = lower line in
        if contains FAST_BURSTS_HINT ll then Inr st
        else if allow_group_change \<and> contains ''warm up'' ll then
          (case parse_distance line of
             Inl err \<Rightarrow> Inl err
           | Inr d \<Rightarrow>
              Inr (emit (''- '' @ or_default d ''2m'' @ '' ramp '' @
                           conversational_zone (workout_name st) ''warmup'')
                     False (start_group ''Warmup'' st)))
        else if allow_group_change \<and> contains ''cool down'' ll then
          (case parse_distance line of
             Inl err \<Rightarrow> Inl err
           | Inr d \<Rightarrow>
              (let a = new_str (''- '' @ or_default d ''2m'' @ '' ramp Z3-Z1 Pace'')
                         (start_group ''Cooldown'' st);
                   st2 = add_step (fst a) False (snd a)
               in Inr (st2\<lparr>cooldown_steps := insert (step_id (fst a)) (cooldown_steps st2)\<rparr>)))
        else if contains ''walking rest'' ll then
          Inr (emit (''- '' @ or_default (parse_duration line) ''90s'' @ '' Z1 Pace'') into_repeat st)
        else if hills_mode st \<and>
                (contains ''running hard uphill'' ll \<or> (contains ''hard'' ll \<and> contains ''uphill'' ll)) then
          Inr (emit (''- '' @ or_default (parse_duration line) ''2m'' @ '' Z3-Z5 HR'') into_repeat st)
        else if hills_mode st \<and>
                (contains ''easy jog back down'' ll \<or> contains ''jog back down'' ll \<or>
                 contains ''easy jog back'' ll \<or> contains ''jog downhill'' ll \<or> contains ''downhill'' ll) then
          Inr (emit (''- Press lap, Jog Downhill '' @ jog_dur (prev_steps_of into_repeat st) @ '' Z1-Z2 Pace'')
                 into_repeat st)
        else if contains ''easy jog'' ll \<or> contains ''easy run'' ll then
          (case parse_distance line of
             Inl err \<Rightarrow> Inl err
           | Inr dist \<Rightarrow>
              if truthy dist then Inr (emit (''- '' @ the dist @ '' Z1-Z2 Pace'') into_repeat st)
              else if truthy (parse_duration line) then
                Inr (emit (''- '' @ the (parse_duration line) @ '' Z1-Z2 Pace'') into_repeat st)
              else process_distance_rules line into_repeat st)
        else process_distance_rules line into_repeat st)"

fun process_fragments :: "string list \<Rightarrow> bool \<Rightarrow> bool \<Rightarrow> machine \<Rightarrow> py_error + machine" where
  "process_fragments [] allow_group_change into_repeat st = Inr st"
| "process_fragments (frag # frags) allow_group_change into_repeat st =
     (case process_fragment frag allow_group_change into_repeat st of
        Inl err \<Rightarrow> Inl err
      | Inr st1 \<Rightarrow> process_fragments frags allow_group_change into_repeat st1)"

text \<open>One pass of the loop over \<^verbatim>\<open>body_lines\<close> in \<^verbatim>\<open>translate\<close>.\<close>

definition in_repeat :: "TState \<Rightarrow> bool" where
  "in_repeat s = (s = REPEAT_OPEN \<or> s = REPEAT_SEP_CAPTURE \<or> s = REPEAT_SEP_WAIT_OPEN)"

definition capturing :: "TState \<Rightarrow> bool" where
  "capturing s = (s = REPEAT_OPEN \<or> s = REPEAT_SEP_CAPTURE)"

definition header_reps :: "string \<Rightarrow> string option" where
  "header_reps ln = (case reps_match ln of Some ds \<Rightarrow> Some ds | None \<Rightarrow> repeat_following_match ln)"

definition process_line :: "string \<Rightarrow> machine \<Rightarrow> py_error + machine" where
  "process_line raw st =
     (let ln = clean_line raw in
      if strip raw = [] \<and> in_repeat (state st) then
        Inr ((close_repeat_group st)\<lparr>state := NORMAL\<rparr>)
      else if ln = [] \<and> capturing (state st) then
        Inr ((close_repeat_group st)\<lparr>state := NORMAL\<rparr>)
      else if ln = [] \<or> is_noise ln then Inr st
      else if sep_line_match ln then
        (if state st = REPEAT_SEP_WAIT_OPEN then Inr (st\<lparr>state := REPEAT_SEP_CAPTURE\<rparr>)
         else if state st = REPEAT_SEP_CAPTURE then Inr ((close_repeat_group st)\<lparr>state := NORMAL\<rparr>)
         else Inr st)
      else if state st = NORMAL \<and> header_reps ln \<noteq> None then
        Inr ((start_repeat_group (int_of_digits (the (header_reps ln))) st)
               \<lparr>state := REPEAT_SEP_WAIT_OPEN\<rparr>)
      else
        (let st1 = (if state st = REPEAT_SEP_WAIT_OPEN then st\<lparr>state := REPEAT_OPEN\<rparr> else st) in
           if capturing (state st1) then process_fragments (split_on_commas ln) False True st1
           else process_fragments (split_on_commas ln) True False st1))"

fun process_lines :: "string list \<Rightarrow> machine \<Rightarrow> py_error + machine" where
  "process_lines [] st = Inr st"
| "process_lines (ln # lns) st =
     (case process_line ln st of Inl err \<Rightarrow> Inl err | Inr st1 \<Rightarrow> process_lines lns st1)"

text \<open>The two post-processing passes of the source; \<^verbatim>\<open>translate\<close> calls the second one only.\<close>

definition move_last_step_to_cooldown :: "machine \<Rightarrow> machine" where
  "move_last_step_to_cooldown st =
     (let last_group = last (groups st); s = last (steps last_group);
          rest = butlast (steps last_group)
      in st\<lparr>groups := (if rest = [] then butlast (groups st)
                        else butlast (groups st) @ [last_group\<lparr>steps := rest\<rparr>])
                       @ [\<lparr>title = ''Cooldown'', steps = [s]\<rparr>]\<rparr>)"


definition postprocess_trailing_cooldown :: "machine \<Rightarrow> machine" where
  "postprocess_trailing_cooldown st =
     (if groups st = [] then st
      else if title (last (groups st)) \<noteq> ''Main Set'' then st
      else if steps (last (groups st)) = [] then st
      else if step_id (last (steps (last (groups st)))) \<notin> cooldown_steps st then st
      else move_last_step_to_cooldown st)"

text \<open>Rendering: a blank line before every group but the first, the title, the steps.\<close>

definition group_lines :: "group \<Rightarrow> string list" where
  "group_lines g = title g # map step_text (steps g)"

definition render_lines :: "group list \<Rightarrow> string list" where
  "render_lines gs = (case gs of [] \<Rightarrow> []
     | g # rest \<Rightarrow> group_lines g @ concat (map (\<lambda>h. [] # group_lines h) rest))"

definition DEFAULT_TEXT :: string where
  "DEFAULT_TEXT = ''Main Set'' @ [NL] @ ''- 60m Z1-Z2 Pace''"

text \<open>
  \<^verbatim>\<open>translate\<close> up to the call of \<^verbatim>\<open>_postprocess_trailing_cooldown\<close>: the loop, the closing
  of a repeat group still open, the final flush.
\<close>

definition run_body :: "string list \<Rightarrow> machine \<Rightarrow> py_error + machine" where
  "run_body body_lines st =
     (case process_lines body_lines st of
        Inl err \<Rightarrow> Inl err
      | Inr st1 \<Rightarrow>
          Inr (flush_current (if in_repeat (state st1) then close_repeat_group st1 else st1)))"

definition translate :: "machine \<Rightarrow> py_error + (string \<times> bool)" where
  "translate st =
     (case splitlines (full_description st) of
        [] \<Rightarrow> Inr (DEFAULT_TEXT, True)
      | first_line # body_lines \<Rightarrow>
          if body_lines = [] then
            (case parse_distance first_line of
               Inl err \<Rightarrow> Inl err
             | Inr dist \<Rightarrow>
                (let ll = lower first_line in
                 if truthy dist \<and> (contains ''easy'' ll \<or> contains ''conversational'' ll) then
                   Inr (''Main Set'' @ [NL] @ ''- '' @ the dist @ '' '' @ single_line_easy_zone, False)
                 else if startswith (lower (workout_name st)) ''easy run'' \<and> truthy dist then
                   Inr (''Main Set'' @ [NL] @ ''- '' @ the dist @ '' '' @ single_line_easy_zone, False)
                 else Inr (DEFAULT_TEXT, True)))
          else
            (case run_body body_lines st of
               Inl err \<Rightarrow> Inl err
             | Inr st1 \<Rightarrow>
                (let st2 = postprocess_trailing_cooldown st1; out = render_lines (groups st2) in
                 if out = [] then Inr (DEFAULT_TEXT, True)
                 else Inr (rstrip (join [NL] out), partial st2))))"

definition translate_workout_to_intervals_text :: "string \<Rightarrow> string \<Rightarrow> py_error + (string \<times> bool)" where
  "translate_workout_to_intervals_text name description =
     translate (init_machine name description)"

section \<open>Predicates of the statements\<close>

text \<open>
  The characters of a rendered quantity (a distance, a duration, a pace): digits, the
  decimal point, the colon and the unit letters.
\<close>

definition quantity_chars :: "string \<Rightarrow> bool" where
  "quantity_chars s = (\<forall>c \<in> set s. is_digit c \<or> c \<in> set ''.:kms'')"

text \<open>
  A step line: it begins with \<open>- \<close>, has something after that, has no newline in it and
  does not end in white space.
\<close>

definition step_text_ok :: "string \<Rightarrow> bool" where
  "step_text_ok t = (startswith t ''- '' \<and> drop 2 t \<noteq> [] \<and> NL \<notin> set t \<and> \<not> is_space (last t))"

text \<open>The outcome of the cool down rule.\<close>

definition cooled :: "string \<Rightarrow> machine \<Rightarrow> machine" where
  "cooled txt st = (let a = new_str txt (start_group ''Cooldown'' st);
       st2 = add_step (fst a) False (snd a)
     in st2\<lparr>cooldown_steps := insert (step_id (fst a)) (cooldown_steps st2)\<rparr>)"

text \<open>
  A machine that has produced nothing yet: no group, no step in the current group or in an
  open repeat group, the partial flag not set.  A body line that the loop of \<^verbatim>\<open>translate\<close>
  passes over: blank after cleaning, noise, or a separator.
\<close>

definition idle :: "machine \<Rightarrow> bool" where
  "idle st = (groups st = [] \<and> steps (current st) = [] \<and>
     (case repeat_group st of None \<Rightarrow> True | Some g \<Rightarrow> steps g = []) \<and> \<not> partial st)"

definition skipped_line :: "string \<Rightarrow> bool" where
  "skipped_line raw = (clean_line raw = [] \<or> is_noise (clean_line raw) \<or> sep_line_match (clean_line raw))"


text \<open>
  The groups a machine holds: the finished ones, the current one and the open repeat group.
  The identities are in order when every step of a group is older than the next identity,
  a step whose identity is in \<^verbatim>\<open>cooldown_steps\<close> sits in a group titled \<open>Cooldown\<close>, and
  every identity in \<^verbatim>\<open>cooldown_steps\<close> is positive and older than the next identity.
\<close>

definition all_groups :: "machine \<Rightarrow> group set" where
  "all_groups st = set (groups st) \<union> {current st} \<union> set_option (repeat_group st)"

definition group_ids_ok :: "nat \<Rightarrow> nat set \<Rightarrow> group \<Rightarrow> bool" where
  "group_ids_ok n flagged g = (\<forall>s \<in> set (steps g).
     step_id s < n \<and> (step_id s \<in> flagged \<longrightarrow> title g = ''Cooldown''))"

definition ids_ok :: "machine \<Rightarrow> bool" where
  "ids_ok st = ((\<forall>g \<in> all_groups st. group_ids_ok (next_id st) (cooldown_steps st) g) \<and>
     (\<forall>i \<in> cooldown_steps st. 0 < i \<and> i < next_id st) \<and> 0 < next_id st)"



text \<open>
  The first-step rewrite of \<^verbatim>\<open>_add_step\<close>, and the conditions of the downhill rule of
  \<^verbatim>\<open>_process_fragment\<close> on the cleaned fragment and its lower-case text: the fragment is
  not dropped, no earlier rule takes it, and it has one of the downhill phrases.
\<close>

definition rewritten_first :: "string \<Rightarrow> string" where
  "rewritten_first txt = (if startswith txt ''- '' then ''- run uphill '' @ drop 2 txt
                          else ''run uphill '' @ txt)"

definition downhill_words :: "string \<Rightarrow> bool" where
  "downhill_words ll = (contains ''easy jog back down'' ll \<or> contains ''jog back down'' ll \<or>
     contains ''easy jog back'' ll \<or> contains ''jog downhill'' ll \<or> contains ''downhill'' ll)"

definition earlier_rule :: "string \<Rightarrow> bool \<Rightarrow> bool" where
  "earlier_rule ll agc = (contains FAST_BURSTS_HINT ll \<or> (agc \<and> contains ''warm up'' ll) \<or>
     (agc \<and> contains ''cool down'' ll) \<or> contains ''walking rest'' ll \<or>
     contains ''running hard uphill'' ll \<or> (contains ''hard'' ll \<and> contains ''uphill'' ll))"

definition dropped :: "string \<Rightarrow> bool" where
  "dropped line = (line = [] \<or> is_noise line \<or> sep_line_match line)"

text \<open>
  The grammar of the rendered text, read line by line (the lines are the parts between
  newlines): a title line (\<open>Warmup\<close>, \<open>Cooldown\<close>, \<open>Main Set\<close>, or \<open>Main Set\<close> with a
  number and \<open>x\<close>), at least one step line beginning with \<open>- \<close>, then either the end,
  or one empty line and the next group.  \<open>expect\<close> is what the reader waits for.
\<close>

definition is_title_line :: "string \<Rightarrow> bool" where
  "is_title_line l = (l = ''Warmup'' \<or> l = ''Cooldown'' \<or> l = ''Main Set'' \<or>
     (startswith l ''Main Set '' \<and> drop 9 l \<noteq> [] \<and> last l = CHR ''x'' \<and>
      butlast (drop 9 l) \<noteq> [] \<and> list_all is_digit (butlast (drop 9 l))))"

definition is_step_line :: "string \<Rightarrow> bool" where
  "is_step_line l = startswith l ''- ''"

datatype expect = Title | FirstStep | MoreSteps

fun grammar :: "expect \<Rightarrow> string list \<Rightarrow> bool" where
  "grammar Title [] = False"
| "grammar Title (l # ls) = (is_title_line l \<and> grammar FirstStep ls)"
| "grammar FirstStep [] = False"
| "grammar FirstStep (l # ls) = (is_step_line l \<and> grammar MoreSteps ls)"
| "grammar MoreSteps [] = True"
| "grammar MoreSteps (l # ls) =
     (if l = [] then grammar Title ls else is_step_line l \<and> grammar MoreSteps ls)"

definition matches_grammar :: "string \<Rightarrow> bool" where
  "matches_grammar out = grammar Title (split_char NL out)"

text \<open>
  A well-formed group has a title of the grammar and step texts that are step lines; in a
  well-formed machine every group is well-formed and every finished group has a step.
\<close>

definition group_wf :: "group \<Rightarrow> bool" where
  "group_wf g = (is_title_line (title g) \<and> list_all (\<lambda>s. step_text_ok (step_text s)) (steps g))"

definition machine_wf :: "machine \<Rightarrow> bool" where
  "machine_wf st = (list_all (\<lambda>g. group_wf g \<and> steps g \<noteq> []) (groups st) \<and> group_wf (current st) \<and>
     (case repeat_group st of None \<Rightarrow> True | Some g \<Rightarrow> group_wf g))"

section \<open>Properties of the string functions\<close>

lemma str_of_nat_small: "n < 10 \<Longrightarrow> str_of_nat n = [digit_char n]"
  by (simp add: str_of_nat.simps)

lemma str_of_nat_big: "10 \<le> n \<Longrightarrow> str_of_nat n = str_of_nat (n div 10) @ [digit_char (n mod 10)]"
  by (subst str_of_nat.simps) simp

lemma bitlen_zero: "bitlen 0 = 0"
  by (simp add: bitlen.simps)

lemma bitlen_pos: "0 < n \<Longrightarrow> bitlen n = Suc (bitlen (n div 2))"
  by (subst bitlen.simps) simp

lemma startswith_iff: "startswith s p \<longleftrightarrow> take (length p) s = p"
  by (induction s p rule: startswith.induct) auto

lemma startswith_append: "startswith s p \<longleftrightarrow> (\<exists>r. s = p @ r)"
  by (induction s p rule: startswith.induct) auto

lemma contains_iff: "contains p s \<longleftrightarrow> (\<exists>a b. s = a @ p @ b)"
proof (induction s)
  case Nil
  then show ?case by auto
next
  case (Cons c cs)
  show ?case
  proof
    assume "contains p (c # cs)"
    then consider "startswith (c # cs) p" | "contains p cs" by auto
    then show "\<exists>a b. c # cs = a @ p @ b"
    proof cases
      case 1
      then obtain r where "c # cs = p @ r" by (auto simp: startswith_append)
      then have "c # cs = [] @ p @ r" by simp
      then show ?thesis by blast
    next
      case 2
      then obtain a b where "cs = a @ p @ b" using Cons.IH by blast
      then have "c # cs = (c # a) @ p @ b" by simp
      then show ?thesis by blast
    qed
  next
    assume "\<exists>a b. c # cs = a @ p @ b"
    then obtain a b where ab: "c # cs = a @ p @ b" by blast
    show "contains p (c # cs)"
    proof (cases a)
      case Nil
      then have "startswith (c # cs) p" using ab by (metis append_Nil startswith_append)
      then show ?thesis by simp
    next
      case (Cons x xs)
      then have "cs = xs @ p @ b" using ab by simp
      then show ?thesis using Cons.IH by auto
    qed
  qed
qed

lemma contains_set: "contains p s \<Longrightarrow> set p \<subseteq> set s"
  by (auto simp: contains_iff)

lemma ci_startswith_lower: "ci_startswith s p \<Longrightarrow> startswith (lower s) p"
  by (induction s p rule: ci_startswith.induct) (auto simp: lower_def split: if_splits)

lemma ci_startswith_contains:
  assumes "ci_startswith s p"
  shows "contains p (lower s)"
proof (cases s)
  case Nil
  with assms have "p = []" by (cases p) auto
  then show ?thesis using Nil by (simp add: lower_def)
next
  case (Cons c cs)
  from assms have "startswith (lower s) p" by (rule ci_startswith_lower)
  then show ?thesis using Cons by (simp add: lower_def)
qed

lemma lower_Cons: "lower (c # cs) = lower_char c # lower cs"
  by (simp add: lower_def)

lemma lower_append: "lower (a @ b) = lower a @ lower b"
  by (simp add: lower_def)

lemma contains_Cons: "contains p cs \<Longrightarrow> contains p (c # cs)"
  by simp

lemma sub_tail_phrase_id:
  "\<not> contains phrase (lower s) \<Longrightarrow> sub_tail (phrase_to_end_at phrase) prev s = s"
proof (induction s arbitrary: prev)
  case Nil
  then show ?case by simp
next
  case (Cons c cs)
  from Cons.prems have "\<not> ci_startswith (c # cs) phrase"
    using ci_startswith_contains by blast
  moreover from Cons.prems have "\<not> contains phrase (lower cs)"
    by (auto simp: lower_Cons)
  ultimately show ?case using Cons.IH by (simp add: phrase_to_end_at_def)
qed

lemma sub_tail_truly_easy_id:
  "\<not> contains ''run at whatever pace feels truly easy'' (lower s) \<Longrightarrow> sub_tail truly_easy_at prev s = s"
proof (induction s arbitrary: prev)
  case Nil
  then show ?case by simp
next
  case (Cons c cs)
  from Cons.prems have "\<not> ci_startswith (c # cs) ''run at whatever pace feels truly easy''"
    using ci_startswith_contains by blast
  moreover from Cons.prems have "\<not> contains ''run at whatever pace feels truly easy'' (lower cs)"
    by (auto simp: lower_Cons)
  ultimately show ?case using Cons.IH by (simp add: truly_easy_at_def)
qed

lemma sub_all_no_faster_id:
  "\<not> contains ''(no faster than'' (lower s) \<Longrightarrow> sub_all no_faster_at 0 s = s"
proof (induction s)
  case Nil
  then show ?case by simp
next
  case (Cons c cs)
  from Cons.prems have "\<not> ci_startswith (c # cs) ''(no faster than''"
    using ci_startswith_contains by blast
  moreover from Cons.prems have "\<not> contains ''(no faster than'' (lower cs)"
    by (auto simp: lower_Cons)
  ultimately show ?case using Cons.IH by (simp add: no_faster_at_def)
qed

lemma not_bullet: "\<not> startswith (map of_char s) BULLET"
proof
  assume "startswith (map of_char s) BULLET"
  then obtain r where "map of_char s = BULLET @ r"
    by (auto simp: startswith_append)
  then have "(0x20AC :: nat) \<in> set (map of_char s)"
    by (simp add: BULLET_def)
  then obtain c :: char where "of_char c = (0x20AC :: nat)" by auto
  moreover have "of_char c < (256 :: nat)" by simp
  ultimately show False by simp
qed


lemma startswith_map_inj: "inj f \<Longrightarrow> startswith (map f s) (map f p) = startswith s p"
  by (induction s p rule: startswith.induct) (auto simp: inj_eq)

lemma contains_map_inj: "inj f \<Longrightarrow> contains (map f p) (map f s) = contains p s"
proof (induction s)
  case Nil
  then show ?case by simp
next
  case (Cons c cs)
  have "startswith (map f (c # cs)) (map f p) = startswith (c # cs) p"
    using Cons.prems by (rule startswith_map_inj)
  then show ?case using Cons by simp
qed

lemma is_noise_iff: "is_noise line = contains ''view in the runna app'' (lower line)"
proof -
  have "\<not> contains [0xF0, 0x178, 0x201C, 0xB2] (map of_char (lower line) :: nat list)"
  proof
    assume "contains [0xF0, 0x178, 0x201C, 0xB2] (map of_char (lower line) :: nat list)"
    then have "(0x178 :: nat) \<in> set (map of_char (lower line))"
      using contains_set by fastforce
    then obtain c :: char where "of_char c = (0x178 :: nat)" by auto
    moreover have "of_char c < (256 :: nat)" by simp
    ultimately show False by simp
  qed
  moreover have "contains (map of_char ''view in the runna app'') (map of_char (lower line) :: nat list)
      = contains ''view in the runna app'' (lower line)"
    by (rule contains_map_inj) (rule inj_of_char)
  ultimately show ?thesis
    by (simp add: is_noise_def NOISE_SUBSTRINGS_def del: map_eq_conv list.map)
qed

lemma rstrip_with_prefix: "\<exists>b. s = rstrip_with p s @ b"
proof -
  have "rev (takeWhile p (rev s) @ dropWhile p (rev s)) = rev (rev s)"
    by (simp only: takeWhile_dropWhile_id)
  then have "rev (dropWhile p (rev s)) @ rev (takeWhile p (rev s)) = s"
    by (simp only: rev_append rev_rev_ident)
  then have "s = rstrip_with p s @ rev (takeWhile p (rev s))" by (simp only: rstrip_with_def)
  then show ?thesis by blast
qed

lemma strip_infix: "\<exists>a b. s = a @ strip s @ b"
proof -
  obtain b where "dropWhile is_space s = strip s @ b"
    using rstrip_with_prefix [of "dropWhile is_space s" is_space] by (auto simp: strip_def rstrip_def)
  then have "s = takeWhile is_space s @ strip s @ b"
    by (metis takeWhile_dropWhile_id)
  then show ?thesis by blast
qed

lemma contains_lower_strip: "contains p (lower (strip s)) \<Longrightarrow> contains p (lower s)"
proof -
  assume "contains p (lower (strip s))"
  then obtain a b where ab: "lower (strip s) = a @ p @ b" by (auto simp: contains_iff)
  obtain u v where "s = u @ strip s @ v" using strip_infix by blast
  then have "lower s = lower u @ lower (strip s) @ lower v" by (metis lower_append)
  then have "lower s = (lower u @ a) @ p @ (b @ lower v)" using ab by simp
  then show ?thesis unfolding contains_iff by blast
qed

lemma rstrip_with_idem: "rstrip_with p (rstrip_with p s) = rstrip_with p s"
  by (simp add: rstrip_with_def)

lemma strip_Nil [simp]: "strip [] = []"
  by (simp add: strip_def rstrip_def rstrip_with_def)

lemma strip_no_lead: "strip s \<noteq> [] \<Longrightarrow> \<not> is_space (hd (strip s))"
proof -
  assume ne: "strip s \<noteq> []"
  let ?d = "dropWhile is_space s"
  have dne: "?d \<noteq> []" using ne by (cases "?d = []") (simp_all add: strip_def rstrip_def rstrip_with_def)
  then have h: "\<not> is_space (hd ?d)" by (rule hd_dropWhile)
  obtain b where b: "?d = strip s @ b"
    using rstrip_with_prefix [of ?d is_space] by (auto simp: strip_def rstrip_def)
  then have "hd ?d = hd (strip s)" using ne by (metis hd_append2)
  then show ?thesis using h by simp
qed

lemma strip_no_trail: "strip s \<noteq> [] \<Longrightarrow> \<not> is_space (last (strip s))"
proof -
  assume ne: "strip s \<noteq> []"
  let ?r = "dropWhile is_space (rev (dropWhile is_space s))"
  have "?r \<noteq> []" using ne by (auto simp: strip_def rstrip_def rstrip_with_def)
  then have "\<not> is_space (hd ?r)" by (rule hd_dropWhile)
  moreover have "last (strip s) = hd ?r" using \<open>?r \<noteq> []\<close>
    by (simp add: strip_def rstrip_def rstrip_with_def last_rev)
  ultimately show ?thesis by simp
qed

lemma strip_id: "s \<noteq> [] \<Longrightarrow> \<not> is_space (hd s) \<Longrightarrow> \<not> is_space (last s) \<Longrightarrow> strip s = s"
proof -
  assume a: "s \<noteq> []" "\<not> is_space (hd s)" "\<not> is_space (last s)"
  then have d: "dropWhile is_space s = s" by (cases s) auto
  have "rev s \<noteq> []" "\<not> is_space (hd (rev s))" using a by (auto simp: hd_rev)
  then have "dropWhile is_space (rev s) = rev s" by (cases "rev s") auto
  then show ?thesis using d by (simp add: strip_def rstrip_def rstrip_with_def)
qed

lemma strip_idem [simp]: "strip (strip s) = strip s"
proof (cases "strip s = []")
  case True
  then show ?thesis by simp
next
  case False
  then show ?thesis using strip_no_lead strip_no_trail strip_id by blast
qed

lemma clean_line_plain:
  assumes "\<not> contains ''(no faster than'' (lower s)"
    and "\<not> contains ''this is a limit'' (lower s)"
    and "\<not> contains ''not a target'' (lower s)"
    and "\<not> contains ''run at whatever pace feels truly easy'' (lower s)"
  shows "clean_line s = strip (rstrip_with (\<lambda>c. c = CHR ''.'' \<or> is_space c) (strip s))"
proof -
  have 1: "sub_all no_faster_at 0 (strip s) = strip s"
    using assms(1) contains_lower_strip by (intro sub_all_no_faster_id) blast
  have 2: "sub_tail (phrase_to_end_at ''this is a limit'') None (strip s) = strip s"
    using assms(2) contains_lower_strip by (intro sub_tail_phrase_id) blast
  have 3: "sub_tail (phrase_to_end_at ''not a target'') None (strip s) = strip s"
    using assms(3) contains_lower_strip by (intro sub_tail_phrase_id) blast
  have 4: "sub_tail truly_easy_at None (strip s) = strip s"
    using assms(4) contains_lower_strip by (intro sub_tail_truly_easy_id) blast
  show ?thesis
    by (simp add: clean_line_def Let_def not_bullet 1 2 3 4 del: sub_all.simps sub_tail.simps)
qed

section \<open>Evaluation on concrete inputs\<close>

text \<open>
  The rules below evaluate the translator on a given text with the simplifier.  The
  arguments of a \<open>let\<close> are evaluated before its body (\<open>let_weak_cong\<close>).
\<close>

lemmas char_eval = is_space_def is_digit_def is_word_def is_linebreak_def lower_char_def
  char_of_def bit_Suc_0_iff digit_val_def digit_char_def lower_def

lemmas str_eval = rstrip_with_def rstrip_def strip_def splitlines_def int_of_digits_def
  str_of_nat_small str_of_nat_big

lemmas re_eval = search_def next_is_word_def prev_is_word_def clock_at_def pace_at_def
  range_at_def km_at_def unit_at_def bounded_unit_at_def header_tail_def reps_match_def
  repeat_following_match_def sep_line_match_def header_reps_def split_on_commas_def
  is_noise_iff clean_line_plain

lemmas float_eval = bitlen_zero bitlen_pos round_half_even_def int_to_double_def div_double_def
  pad3_def format_3f_def meters_to_km_str_def

lemmas parse_eval = parse_distance_def parse_duration_def truthy_def or_default_def
  is_hills_by_text_def conversational_zone_def single_line_easy_zone_def

lemmas machine_eval = init_machine_def new_str_def flush_current_def start_group_def
  start_repeat_group_def close_repeat_group_def add_hills_fallback_if_needed_def
  target_repeat_def add_step_def emit_def jog_dur_def prev_steps_of_def FAST_BURSTS_HINT_def
  process_distance_rules_def process_fragment_def in_repeat_def capturing_def process_line_def
  postprocess_trailing_cooldown_def move_last_step_to_cooldown_def group_lines_def
  render_lines_def DEFAULT_TEXT_def run_body_def translate_def
  translate_workout_to_intervals_text_def FALLBACK_STEP_def

lemmas all_eval = char_eval str_eval re_eval float_eval parse_eval machine_eval Let_def

section \<open>What a fragment can do to the machine\<close>

lemma quantity_chars_append [simp]: "quantity_chars (a @ b) = (quantity_chars a \<and> quantity_chars b)"
  by (auto simp: quantity_chars_def)

lemma quantity_chars_Nil [simp]: "quantity_chars []"
  by (simp add: quantity_chars_def)

lemma quantity_chars_Cons [simp]:
  "quantity_chars (c # s) = ((is_digit c \<or> c \<in> set ''.:kms'') \<and> quantity_chars s)"
  by (simp add: quantity_chars_def)

lemma quantity_chars_digits: "\<forall>c \<in> set s. is_digit c \<Longrightarrow> quantity_chars s"
  by (simp add: quantity_chars_def)

lemma quantity_chars_no_space: "quantity_chars s \<Longrightarrow> c \<in> set s \<Longrightarrow> \<not> is_space c \<and> \<not> is_linebreak c"
  by (auto simp: quantity_chars_def is_digit_def is_space_def is_linebreak_def Let_def)

lemma is_digit_digit_char: "d < 10 \<Longrightarrow> is_digit (digit_char d)"
proof -
  assume "d < 10"
  then have "of_char (char_of (48 + d)) = 48 + d" by simp
  then show ?thesis using \<open>d < 10\<close> by (simp add: is_digit_def digit_char_def)
qed

lemma str_of_nat_digits: "\<forall>c \<in> set (str_of_nat n). is_digit c"
proof (induction n rule: str_of_nat.induct)
  case (1 n)
  show ?case
  proof (cases "n < 10")
    case True
    then show ?thesis by (simp add: str_of_nat_small is_digit_digit_char)
  next
    case False
    then have "str_of_nat n = str_of_nat (n div 10) @ [digit_char (n mod 10)]"
      by (simp add: str_of_nat_big)
    moreover have "is_digit (digit_char (n mod 10))" by (simp add: is_digit_digit_char)
    ultimately show ?thesis using 1 False by auto
  qed
qed

lemma str_of_nat_not_Nil: "str_of_nat n \<noteq> []"
  by (subst str_of_nat.simps) simp

lemma re_search_Some: "re_search m prev s = Some r \<Longrightarrow> \<exists>p t. m p t = Some r"
  by (induction s arbitrary: prev) (auto split: option.splits)

lemma search_Some: "search m s = Some r \<Longrightarrow> \<exists>p t. m p t = Some r"
  unfolding search_def by (rule re_search_Some)

lemma takeWhile_digits: "\<forall>c \<in> set (takeWhile is_digit s). is_digit c"
  by (auto dest: set_takeWhileD)

lemma km_at_chars: "km_at p t = Some g \<Longrightarrow> quantity_chars g \<and> g \<noteq> []"
  by (auto simp: km_at_def Let_def quantity_chars_def split: if_splits dest: set_takeWhileD)

lemma unit_at_digits: "unit_at u p t = Some ds \<Longrightarrow> (\<forall>c \<in> set ds. is_digit c) \<and> ds \<noteq> []"
  by (auto simp: unit_at_def Let_def split: if_splits dest: set_takeWhileD)

lemma bounded_unit_at_digits: "bounded_unit_at u p t = Some ds \<Longrightarrow> (\<forall>c \<in> set ds. is_digit c) \<and> ds \<noteq> []"
  by (auto simp: bounded_unit_at_def Let_def split: if_splits dest: set_takeWhileD)

lemma clock_at_chars: "clock_at t = Some c \<Longrightarrow> quantity_chars (fst c)"
proof -
  assume a: "clock_at t = Some c"
  let ?r = "dropWhile is_digit t"
  from a have c: "fst c = takeWhile is_digit t @ take 3 ?r" and l: "3 \<le> length ?r"
    and 0: "?r ! 0 = CHR '':''" and 1: "is_digit (?r ! 1)" and 2: "is_digit (?r ! 2)"
    by (auto simp: clock_at_def Let_def split: if_splits)
  from l obtain x y z w where "?r = x # y # z # w"
    by (metis Suc_le_length_iff numeral_3_eq_3)
  then have "quantity_chars (take 3 ?r)" using 0 1 2 by simp
  then show ?thesis using c by (auto simp: quantity_chars_def dest: set_takeWhileD)
qed

lemma pace_at_chars: "pace_at p t = Some g \<Longrightarrow> quantity_chars g"
  by (auto simp: pace_at_def split: option.splits if_splits dest: clock_at_chars)

lemma range_at_chars: "range_at p t = Some g \<Longrightarrow> quantity_chars (fst g) \<and> quantity_chars (snd g)"
  by (auto simp: range_at_def split: option.splits if_splits dest: clock_at_chars)

lemma rstrip_with_subset: "set (rstrip_with p s) \<subseteq> set s"
  by (auto simp: rstrip_with_def dest: set_dropWhileD)

lemma pad3_digits: "n < 1000 \<Longrightarrow> \<forall>c \<in> set (pad3 n). is_digit c"
  by (auto simp: pad3_def intro!: is_digit_digit_char)

lemma format_3f_chars: "quantity_chars (format_3f d)"
proof -
  have "\<And>n. quantity_chars (pad3 (n mod 1000))"
    by (rule quantity_chars_digits, rule pad3_digits) simp
  then have "\<And>n. quantity_chars (str_of_nat (n div 1000) @ ''.'' @ pad3 (n mod 1000))"
    by (simp add: quantity_chars_digits str_of_nat_digits)
  then show ?thesis by (simp add: format_3f_def Let_def)
qed

lemma meters_to_km_str_chars: "meters_to_km_str n = Inr s \<Longrightarrow> quantity_chars s \<and> s \<noteq> []"
proof -
  assume "meters_to_km_str n = Inr s"
  then obtain d where s: "s = rstrip_with (\<lambda>c. c = CHR ''.'')
      (rstrip_with (\<lambda>c. c = CHR ''0'') (format_3f (div_double (fst d * 2 ^ nat (snd d)) 1000))) @ ''km''"
    by (auto simp: meters_to_km_str_def Let_def split: sum.splits)
  have "quantity_chars (format_3f (div_double (fst d * 2 ^ nat (snd d)) 1000))"
    by (rule format_3f_chars)
  then show ?thesis using s rstrip_with_subset
    by (auto simp: quantity_chars_def) (meson in_mono)+
qed

lemma parse_distance_chars: "parse_distance line = Inr (Some d) \<Longrightarrow> quantity_chars d \<and> d \<noteq> []"
  by (auto simp: parse_distance_def split: option.splits sum.splits
      dest!: search_Some dest: km_at_chars meters_to_km_str_chars)

lemma parse_duration_chars: "parse_duration line = Some d \<Longrightarrow> quantity_chars d \<and> d \<noteq> []"
  by (auto simp: parse_duration_def quantity_chars_digits str_of_nat_digits split: option.splits)

lemma jog_dur_chars: "quantity_chars (jog_dur ps)"
  by (auto simp: jog_dur_def Let_def quantity_chars_digits str_of_nat_digits split: option.splits)
    (simp_all add: quantity_chars_def is_digit_def)

lemma or_default_chars: 
  "(\<And>s. x = Some s \<Longrightarrow> quantity_chars s) \<Longrightarrow> quantity_chars d \<Longrightarrow> quantity_chars (or_default x d)"
  by (auto simp: or_default_def split: option.splits)


lemma quantity_chars_no_NL: "quantity_chars s \<Longrightarrow> NL \<notin> set s"
  using quantity_chars_no_space [of s NL] by (auto simp: is_linebreak_def)

lemma step_text_okI:
  "NL \<notin> set b \<Longrightarrow> b \<noteq> [] \<Longrightarrow> \<not> is_space (last b) \<Longrightarrow> step_text_ok (''- '' @ b)"
  by (simp add: step_text_ok_def)

lemma step_text_ok_quantity:
  "quantity_chars q \<Longrightarrow> NL \<notin> set z \<Longrightarrow> z \<noteq> [] \<Longrightarrow> \<not> is_space (last z) \<Longrightarrow>
   step_text_ok (''- '' @ q @ z)"
  by (rule step_text_okI) (auto dest: quantity_chars_no_NL)

lemma conversational_zone_cases:
  "conversational_zone n c = ''Z1-Z3 Pace'' \<or> conversational_zone n c = ''Z1-Z2 Pace''"
  by (simp add: conversational_zone_def Let_def)

lemma step_text_ok_zone:
  "quantity_chars q \<Longrightarrow> step_text_ok (''- '' @ q @ '' '' @ conversational_zone n c)"
  "quantity_chars q \<Longrightarrow> step_text_ok (''- '' @ q @ '' ramp '' @ conversational_zone n c)"
  using conversational_zone_cases [of n c]
  by (auto simp: step_text_ok_def is_space_def dest: quantity_chars_no_NL)

lemma truthy_Some: "truthy x \<Longrightarrow> \<exists>s. x = Some s \<and> s \<noteq> []"
  by (cases x) (auto simp: truthy_def)

lemma process_distance_rules_cases:
  assumes "process_distance_rules line ir st = Inr st'"
  shows "(\<exists>txt. step_text_ok txt \<and> st' = emit txt ir st) \<or>
         (st' = add_hills_fallback_if_needed (st\<lparr>partial := True\<rparr>) \<and>
          \<not> truthy (parse_duration line) \<and> (\<exists>d. parse_distance line = Inr d \<and> \<not> truthy d))"
proof -
  from assms obtain dist where pd: "parse_distance line = Inr dist"
    by (cases "parse_distance line") (simp_all add: process_distance_rules_def)
  let ?rng = "search range_at line" and ?pace = "search pace_at line"
  let ?conv = "contains ''conversational'' (lower line)"
  let ?easy = "contains ''easy run'' (lower line) \<or>
     (startswith (lower (workout_name st)) ''easy run'' \<and> contains ''easy'' (lower line))"
  show ?thesis
  proof (cases "truthy dist")
    case True
    then obtain d where d: "dist = Some d" by (auto dest: truthy_Some)
    then have qd: "quantity_chars d" using pd parse_distance_chars by blast
    consider (range) "?rng \<noteq> None"
      | (pace) "?rng = None" "?pace \<noteq> None"
      | (conv) "?rng = None" "?pace = None" "?conv"
      | (easy) "?rng = None" "?pace = None" "\<not> ?conv" "?easy"
      | (plain) "?rng = None" "?pace = None" "\<not> ?conv" "\<not> ?easy"
      by blast
    then have "\<exists>txt. step_text_ok txt \<and> st' = emit txt ir st"
    proof cases
      case range
      then obtain g where g: "?rng = Some g" by blast
      then have "quantity_chars (fst g)" "quantity_chars (snd g)"
        by (auto dest!: search_Some dest: range_at_chars)
      then have "step_text_ok (''- '' @ d @ '' '' @ fst g @ ''/km PACE ('' @ fst g @ ''-'' @ snd g @ ''/km) Pace'')"
        using qd by (intro step_text_okI) (auto dest: quantity_chars_no_NL simp: is_space_def)
      moreover have "st' = emit (''- '' @ d @ '' '' @ fst g @ ''/km PACE ('' @ fst g @ ''-'' @ snd g @ ''/km) Pace'') ir st"
        using assms pd True d g by (simp add: process_distance_rules_def Let_def)
      ultimately show ?thesis by blast
    next
      case pace
      then obtain g where g: "?pace = Some g" by blast
      then have "quantity_chars g" by (auto dest!: search_Some dest: pace_at_chars)
      then have "step_text_ok (''- '' @ d @ '' '' @ g @ ''/km Pace'')"
        using qd by (intro step_text_okI) (auto dest: quantity_chars_no_NL simp: is_space_def)
      moreover have "st' = emit (''- '' @ d @ '' '' @ g @ ''/km Pace'') ir st"
        using assms pd True d g pace(1) by (simp add: process_distance_rules_def Let_def)
      ultimately show ?thesis by blast
    next
      case conv
      have "step_text_ok (''- '' @ d @ '' '' @ conversational_zone (workout_name st) ''main'')"
        using qd by (rule step_text_ok_zone)
      moreover have "st' = emit (''- '' @ d @ '' '' @ conversational_zone (workout_name st) ''main'') ir st"
        using assms pd True d conv by (simp add: process_distance_rules_def Let_def)
      ultimately show ?thesis by blast
    next
      case easy
      have "step_text_ok (''- '' @ d @ '' '' @ single_line_easy_zone)"
        using qd by (intro step_text_okI)
          (auto dest: quantity_chars_no_NL simp: is_space_def single_line_easy_zone_def)
      moreover have "st' = emit (''- '' @ d @ '' '' @ single_line_easy_zone) ir st"
        using assms pd True d easy(1,2,3)
        by (simp add: process_distance_rules_def Let_def easy(4) del: contains.simps)
      ultimately show ?thesis by blast
    next
      case plain
      have "step_text_ok (''- '' @ d @ '' Z1-Z2 Pace'')"
        using qd by (intro step_text_okI) (auto dest: quantity_chars_no_NL simp: is_space_def)
      moreover have "st' = emit (''- '' @ d @ '' Z1-Z2 Pace'') ir st"
        using assms pd True d plain(1,2,3)
        by (simp add: process_distance_rules_def Let_def plain(4) del: contains.simps)
      ultimately show ?thesis by blast
    qed
    then show ?thesis by blast
  next
    case False
    show ?thesis
    proof (cases "truthy (parse_duration line)")
      case True
      then obtain u where u: "parse_duration line = Some u" by (auto dest: truthy_Some)
      then have "quantity_chars u" using parse_duration_chars by blast
      then have "step_text_ok (''- '' @ u @ '' Z1-Z2 Pace'')"
        by (intro step_text_okI) (auto dest: quantity_chars_no_NL simp: is_space_def)
      moreover from assms pd False True u have "st' = emit (''- '' @ u @ '' Z1-Z2 Pace'') ir st"
        by (simp add: process_distance_rules_def Let_def)
      ultimately show ?thesis by blast
    next
      case nd: False
      from assms pd False nd have "st' = add_hills_fallback_if_needed (st\<lparr>partial := True\<rparr>)"
        by (simp add: process_distance_rules_def Let_def)
      then show ?thesis using pd False nd by blast
    qed
  qed
qed

lemma process_fragment_cases:
  assumes "process_fragment frag agc ir st = Inr st'"
  shows "st' = st \<or>
         (\<exists>txt. step_text_ok txt \<and>
            (st' = emit txt ir st \<or> st' = emit txt False (start_group ''Warmup'' st) \<or>
             st' = cooled txt st)) \<or>
         (st' = add_hills_fallback_if_needed (st\<lparr>partial := True\<rparr>) \<and>
          \<not> truthy (parse_duration (clean_line frag)) \<and>
          (\<exists>d. parse_distance (clean_line frag) = Inr d \<and> \<not> truthy d))"
proof -
  let ?line = "clean_line frag"
  let ?ll = "lower ?line"
  let ?skip = "?line = [] \<or> is_noise ?line \<or> sep_line_match ?line"
  let ?fast = "contains FAST_BURSTS_HINT ?ll"
  let ?warm = "agc \<and> contains ''warm up'' ?ll"
  let ?cool = "agc \<and> contains ''cool down'' ?ll"
  let ?rest = "contains ''walking rest'' ?ll"
  let ?hard = "hills_mode st \<and>
     (contains ''running hard uphill'' ?ll \<or> (contains ''hard'' ?ll \<and> contains ''uphill'' ?ll))"
  let ?jog = "hills_mode st \<and>
     (contains ''easy jog back down'' ?ll \<or> contains ''jog back down'' ?ll \<or>
      contains ''easy jog back'' ?ll \<or> contains ''jog downhill'' ?ll \<or> contains ''downhill'' ?ll)"
  let ?easy = "contains ''easy jog'' ?ll \<or> contains ''easy run'' ?ll"
  have dist: "\<And>d. parse_distance ?line = Inr d \<Longrightarrow> quantity_chars (or_default d ''2m'')"
    by (rule or_default_chars) (auto dest: parse_distance_chars simp: is_digit_def)
  have dur: "\<And>z. quantity_chars z \<Longrightarrow> quantity_chars (or_default (parse_duration ?line) z)"
    by (rule or_default_chars) (auto dest: parse_duration_chars)
  note defs = process_fragment_def Let_def
  consider (skip) "?skip" | (fast) "\<not> ?skip" "?fast"
    | (warm) "\<not> ?skip" "\<not> ?fast" "?warm"
    | (cool) "\<not> ?skip" "\<not> ?fast" "\<not> ?warm" "?cool"
    | (rest) "\<not> ?skip" "\<not> ?fast" "\<not> ?warm" "\<not> ?cool" "?rest"
    | (hard) "\<not> ?skip" "\<not> ?fast" "\<not> ?warm" "\<not> ?cool" "\<not> ?rest" "?hard"
    | (jog) "\<not> ?skip" "\<not> ?fast" "\<not> ?warm" "\<not> ?cool" "\<not> ?rest" "\<not> ?hard" "?jog"
    | (easy) "\<not> ?skip" "\<not> ?fast" "\<not> ?warm" "\<not> ?cool" "\<not> ?rest" "\<not> ?hard" "\<not> ?jog" "?easy"
    | (other) "\<not> ?skip" "\<not> ?fast" "\<not> ?warm" "\<not> ?cool" "\<not> ?rest" "\<not> ?hard" "\<not> ?jog" "\<not> ?easy"
    by blast
  then show ?thesis
  proof cases
    case skip
    then have "process_fragment frag agc ir st = Inr st"
      by (simp add: defs)
    with assms show ?thesis by simp
  next
    case fast
    have "process_fragment frag agc ir st = Inr st"
      using fast by (auto simp add: defs)
    with assms show ?thesis by simp
  next
    case warm
    have eq: "process_fragment frag agc ir st =
        (case parse_distance ?line of Inl err \<Rightarrow> Inl err
         | Inr d \<Rightarrow> Inr (emit (''- '' @ or_default d ''2m'' @ '' ramp '' @
               conversational_zone (workout_name st) ''warmup'') False (start_group ''Warmup'' st)))"
      using warm by (auto simp add: defs)
    then obtain d where d: "parse_distance ?line = Inr d"
      using assms by (cases "parse_distance ?line") simp_all
    have "step_text_ok (''- '' @ or_default d ''2m'' @ '' ramp '' @ conversational_zone (workout_name st) ''warmup'')"
      by (rule step_text_ok_zone) (rule dist [OF d])
    moreover have "st' = emit (''- '' @ or_default d ''2m'' @ '' ramp '' @
        conversational_zone (workout_name st) ''warmup'') False (start_group ''Warmup'' st)"
      using assms eq d by simp
    ultimately show ?thesis by blast
  next
    case cool
    have eq: "process_fragment frag agc ir st =
        (case parse_distance ?line of Inl err \<Rightarrow> Inl err
         | Inr d \<Rightarrow> Inr (cooled (''- '' @ or_default d ''2m'' @ '' ramp Z3-Z1 Pace'') st))"
      using cool by (auto simp add: defs cooled_def cong: sum.case_cong)
    then obtain d where d: "parse_distance ?line = Inr d"
      using assms by (cases "parse_distance ?line") simp_all
    have "step_text_ok (''- '' @ or_default d ''2m'' @ '' ramp Z3-Z1 Pace'')"
      by (rule step_text_ok_quantity) (auto intro: dist [OF d] simp: is_space_def)
    moreover have "st' = cooled (''- '' @ or_default d ''2m'' @ '' ramp Z3-Z1 Pace'') st"
      using assms eq d by simp
    ultimately show ?thesis by blast
  next
    case rest
    have "process_fragment frag agc ir st =
        Inr (emit (''- '' @ or_default (parse_duration ?line) ''90s'' @ '' Z1 Pace'') ir st)"
      using rest by (auto simp add: defs)
    moreover have "step_text_ok (''- '' @ or_default (parse_duration ?line) ''90s'' @ '' Z1 Pace'')"
      by (rule step_text_ok_quantity) (auto intro: dur simp: is_space_def is_digit_def)
    ultimately show ?thesis using assms by auto
  next
    case hard
    have "process_fragment frag agc ir st =
        Inr (emit (''- '' @ or_default (parse_duration ?line) ''2m'' @ '' Z3-Z5 HR'') ir st)"
      using hard by (auto simp add: defs)
    moreover have "step_text_ok (''- '' @ or_default (parse_duration ?line) ''2m'' @ '' Z3-Z5 HR'')"
      by (rule step_text_ok_quantity) (auto intro: dur simp: is_space_def is_digit_def)
    ultimately show ?thesis using assms by auto
  next
    case jog
    have "process_fragment frag agc ir st =
        Inr (emit (''- Press lap, Jog Downhill '' @ jog_dur (prev_steps_of ir st) @ '' Z1-Z2 Pace'') ir st)"
      using jog by (auto simp add: defs)
    moreover have "step_text_ok (''- Press lap, Jog Downhill '' @ jog_dur (prev_steps_of ir st) @ '' Z1-Z2 Pace'')"
      using jog_dur_chars [of "prev_steps_of ir st"]
      by (auto simp: step_text_ok_def is_space_def dest: quantity_chars_no_NL)
    ultimately show ?thesis using assms by auto
  next
    case easy
    have eq: "process_fragment frag agc ir st =
        (case parse_distance ?line of Inl err \<Rightarrow> Inl err
         | Inr dist \<Rightarrow>
            if truthy dist then Inr (emit (''- '' @ the dist @ '' Z1-Z2 Pace'') ir st)
            else if truthy (parse_duration ?line) then
              Inr (emit (''- '' @ the (parse_duration ?line) @ '' Z1-Z2 Pace'') ir st)
            else process_distance_rules ?line ir st)"
      using easy by (auto simp add: defs)
    then obtain d where d: "parse_distance ?line = Inr d"
      using assms by (cases "parse_distance ?line") simp_all
    show ?thesis
    proof (cases "truthy d")
      case True
      then have "step_text_ok (''- '' @ the d @ '' Z1-Z2 Pace'')"
        using d by (intro step_text_ok_quantity)
          (auto dest!: truthy_Some dest: parse_distance_chars simp: is_space_def)
      moreover have "st' = emit (''- '' @ the d @ '' Z1-Z2 Pace'') ir st"
        using assms eq d True by simp
      ultimately show ?thesis by blast
    next
      case nd: False
      show ?thesis
      proof (cases "truthy (parse_duration ?line)")
        case True
        then have "step_text_ok (''- '' @ the (parse_duration ?line) @ '' Z1-Z2 Pace'')"
          by (intro step_text_ok_quantity)
            (auto dest!: truthy_Some dest: parse_duration_chars simp: is_space_def)
        moreover have "st' = emit (''- '' @ the (parse_duration ?line) @ '' Z1-Z2 Pace'') ir st"
          using assms eq d nd True by simp
        ultimately show ?thesis by blast
      next
        case False
        then have "process_distance_rules ?line ir st = Inr st'"
          using assms eq d nd by simp
        then show ?thesis using process_distance_rules_cases by blast
      qed
    qed
  next
    case other
    have "process_fragment frag agc ir st = process_distance_rules ?line ir st"
      using other by (auto simp add: defs)
    then have "process_distance_rules ?line ir st = Inr st'" using assms by simp
    then show ?thesis using process_distance_rules_cases by blast
  qed
qed

section \<open>Lines that produce nothing\<close>

lemma idle_close_repeat_group: "idle st \<Longrightarrow> idle ((close_repeat_group st)\<lparr>state := s\<rparr>)"
  by (auto simp: idle_def close_repeat_group_def split: option.splits)

lemma idle_state_update: "idle st \<Longrightarrow> idle (st\<lparr>state := s\<rparr>)"
  by (simp add: idle_def)

lemma process_line_skipped:
  assumes "skipped_line raw" and "idle st"
  shows "\<exists>st'. process_line raw st = Inr st' \<and> idle st'"
  using assms
  by (auto simp: process_line_def skipped_line_def Let_def idle_close_repeat_group idle_state_update)

lemma process_lines_skipped:
  "\<forall>ln \<in> set lns. skipped_line ln \<Longrightarrow> idle st \<Longrightarrow> \<exists>st'. process_lines lns st = Inr st' \<and> idle st'"
proof (induction lns arbitrary: st)
  case Nil
  then show ?case by simp
next
  case (Cons ln lns)
  then obtain st1 where 1: "process_line ln st = Inr st1" "idle st1"
    using process_line_skipped by (metis list.set_intros(1))
  with Cons obtain st' where "process_lines lns st1 = Inr st'" "idle st'"
    by (metis list.set_intros(2))
  with 1 show ?case by simp
qed

lemma idle_init: "idle (init_machine name description)"
  by (simp add: idle_def init_machine_def)

lemma run_body_skipped:
  assumes "\<forall>ln \<in> set lns. skipped_line ln"
  shows "\<exists>st'. run_body lns (init_machine name description) = Inr st' \<and> groups st' = [] \<and> \<not> partial st'"
proof -
  obtain st1 where 1: "process_lines lns (init_machine name description) = Inr st1" "idle st1"
    using process_lines_skipped [OF assms idle_init] by blast
  then show ?thesis
    by (auto simp: run_body_def idle_def flush_current_def close_repeat_group_def split: option.splits)
qed

lemma translate_no_groups:
  assumes "splitlines description = first_line # body_lines" and "body_lines \<noteq> []"
    and "run_body body_lines (init_machine name description) = Inr st" and "groups st = []"
  shows "translate_workout_to_intervals_text name description = Inr (''Main Set'' @ [NL] @ ''- 60m Z1-Z2 Pace'', True)"
  using assms
  by (simp add: translate_workout_to_intervals_text_def translate_def init_machine_def
      postprocess_trailing_cooldown_def render_lines_def DEFAULT_TEXT_def Let_def)

section \<open>Invariants of the loop\<close>

lemma process_fragment_invariant:
  assumes emit: "\<And>txt ir st. P st \<Longrightarrow> step_text_ok txt \<Longrightarrow> P (emit txt ir st)"
    and warm: "\<And>st. P st \<Longrightarrow> P (start_group ''Warmup'' st)"
    and cool: "\<And>txt st. P st \<Longrightarrow> step_text_ok txt \<Longrightarrow> P (cooled txt st)"
    and unknown: "\<And>st. P st \<Longrightarrow> P (add_hills_fallback_if_needed (st\<lparr>partial := True\<rparr>))"
    and run: "process_fragment frag agc ir st = Inr st'" and inv: "P st"
  shows "P st'"
  using process_fragment_cases [OF run] inv emit warm cool unknown by auto

lemma process_fragments_invariant:
  assumes emit: "\<And>txt ir st. P st \<Longrightarrow> step_text_ok txt \<Longrightarrow> P (emit txt ir st)"
    and warm: "\<And>st. P st \<Longrightarrow> P (start_group ''Warmup'' st)"
    and cool: "\<And>txt st. P st \<Longrightarrow> step_text_ok txt \<Longrightarrow> P (cooled txt st)"
    and unknown: "\<And>st. P st \<Longrightarrow> P (add_hills_fallback_if_needed (st\<lparr>partial := True\<rparr>))"
  shows "process_fragments frags agc ir st = Inr st' \<Longrightarrow> P st \<Longrightarrow> P st'"
proof (induction frags arbitrary: st)
  case Nil
  then show ?case by simp
next
  case (Cons frag frags)
  from Cons.prems(1) obtain st1 where 1: "process_fragment frag agc ir st = Inr st1"
    and 2: "process_fragments frags agc ir st1 = Inr st'"
    by (auto split: sum.splits)
  have "P st1"
    using emit warm cool unknown 1 Cons.prems(2) by (rule process_fragment_invariant)
  with 2 show ?case by (rule Cons.IH)
qed

lemma process_line_invariant:
  assumes emit: "\<And>txt ir st. P st \<Longrightarrow> step_text_ok txt \<Longrightarrow> P (emit txt ir st)"
    and warm: "\<And>st. P st \<Longrightarrow> P (start_group ''Warmup'' st)"
    and cool: "\<And>txt st. P st \<Longrightarrow> step_text_ok txt \<Longrightarrow> P (cooled txt st)"
    and unknown: "\<And>st. P st \<Longrightarrow> P (add_hills_fallback_if_needed (st\<lparr>partial := True\<rparr>))"
    and close: "\<And>st. P st \<Longrightarrow> P (close_repeat_group st)"
    and state: "\<And>st s. P st \<Longrightarrow> P (st\<lparr>state := s\<rparr>)"
    and header: "\<And>st n. P st \<Longrightarrow> P (start_repeat_group n st)"
    and run: "process_line raw st = Inr st'" and inv: "P st"
  shows "P st'"
proof -
  note frags = process_fragments_invariant [of P, OF emit warm cool unknown]
  from run inv show ?thesis
    unfolding process_line_def Let_def
    by (auto split: if_splits intro: close state header frags)
qed

lemma process_lines_invariant:
  assumes emit: "\<And>txt ir st. P st \<Longrightarrow> step_text_ok txt \<Longrightarrow> P (emit txt ir st)"
    and warm: "\<And>st. P st \<Longrightarrow> P (start_group ''Warmup'' st)"
    and cool: "\<And>txt st. P st \<Longrightarrow> step_text_ok txt \<Longrightarrow> P (cooled txt st)"
    and unknown: "\<And>st. P st \<Longrightarrow> P (add_hills_fallback_if_needed (st\<lparr>partial := True\<rparr>))"
    and close: "\<And>st. P st \<Longrightarrow> P (close_repeat_group st)"
    and state: "\<And>st s. P st \<Longrightarrow> P (st\<lparr>state := s\<rparr>)"
    and header: "\<And>st n. P st \<Longrightarrow> P (start_repeat_group n st)"
  shows "process_lines lns st = Inr st' \<Longrightarrow> P st \<Longrightarrow> P st'"
proof (induction lns arbitrary: st)
  case Nil
  then show ?case by simp
next
  case (Cons ln lns)
  from Cons.prems(1) obtain st1 where 1: "process_line ln st = Inr st1"
    and 2: "process_lines lns st1 = Inr st'"
    by (auto split: sum.splits)
  have "P st1"
    using emit warm cool unknown close state header 1 Cons.prems(2) by (rule process_line_invariant)
  with 2 show ?case by (rule Cons.IH)
qed

lemma run_body_invariant:
  assumes emit: "\<And>txt ir st. P st \<Longrightarrow> step_text_ok txt \<Longrightarrow> P (emit txt ir st)"
    and warm: "\<And>st. P st \<Longrightarrow> P (start_group ''Warmup'' st)"
    and cool: "\<And>txt st. P st \<Longrightarrow> step_text_ok txt \<Longrightarrow> P (cooled txt st)"
    and unknown: "\<And>st. P st \<Longrightarrow> P (add_hills_fallback_if_needed (st\<lparr>partial := True\<rparr>))"
    and close: "\<And>st. P st \<Longrightarrow> P (close_repeat_group st)"
    and state: "\<And>st s. P st \<Longrightarrow> P (st\<lparr>state := s\<rparr>)"
    and header: "\<And>st n. P st \<Longrightarrow> P (start_repeat_group n st)"
    and flush: "\<And>st. P st \<Longrightarrow> P (flush_current st)"
    and run: "run_body lns st = Inr st'" and inv: "P st"
  shows "P st'"
proof -
  from run obtain st1 where 1: "process_lines lns st = Inr st1"
    and 2: "st' = flush_current (if in_repeat (state st1) then close_repeat_group st1 else st1)"
    by (auto simp: run_body_def split: sum.splits)
  have "P st1"
    using emit warm cool unknown close state header 1 inv by (rule process_lines_invariant)
  then show ?thesis using 2 close flush by simp
qed

subsection \<open>The partial flag\<close>

lemma partial_emit [simp]: "partial (emit txt ir st) = partial st"
  by (simp add: emit_def add_step_def new_str_def target_repeat_def Let_def split: option.splits)

lemma partial_flush_current [simp]: "partial (flush_current st) = partial st"
  by (simp add: flush_current_def)

lemma partial_start_group [simp]: "partial (start_group t st) = partial st"
  by (simp add: start_group_def)

lemma partial_cooled [simp]: "partial (cooled txt st) = partial st"
  by (simp add: cooled_def add_step_def new_str_def target_repeat_def Let_def)

lemma partial_fallback [simp]: "partial (add_hills_fallback_if_needed st) = partial st"
  by (simp add: add_hills_fallback_if_needed_def)

lemma partial_close_repeat_group [simp]: "partial (close_repeat_group st) = partial st"
  by (simp add: close_repeat_group_def split: option.splits)

lemma partial_start_repeat_group [simp]: "partial (start_repeat_group n st) = partial st"
  by (simp add: start_repeat_group_def)

lemma partial_postprocess [simp]: "partial (postprocess_trailing_cooldown st) = partial st"
  by (simp add: postprocess_trailing_cooldown_def move_last_step_to_cooldown_def Let_def)

lemma process_fragment_keeps_partial:
  "process_fragment frag agc ir st = Inr st' \<Longrightarrow> partial st \<Longrightarrow> partial st'"
  by (rule process_fragment_invariant [of partial]) simp_all

lemma process_fragment_sets_partial:
  assumes "process_fragment frag agc ir st = Inr st'" and "\<not> partial st" and "partial st'"
  shows "st' = add_hills_fallback_if_needed (st\<lparr>partial := True\<rparr>) \<and>
         \<not> truthy (parse_duration (clean_line frag)) \<and>
         (\<exists>d. parse_distance (clean_line frag) = Inr d \<and> \<not> truthy d)"
  using process_fragment_cases [OF assms(1)] assms(2,3) by auto

lemma process_line_keeps_partial:
  "process_line raw st = Inr st' \<Longrightarrow> partial st \<Longrightarrow> partial st'"
  by (rule process_line_invariant [of partial]) simp_all

lemma process_lines_keeps_partial:
  "process_lines lns st = Inr st' \<Longrightarrow> partial st \<Longrightarrow> partial st'"
  by (rule process_lines_invariant [of partial]) simp_all

lemma run_body_keeps_partial:
  "run_body lns st = Inr st' \<Longrightarrow> partial st \<Longrightarrow> partial st'"
  by (rule run_body_invariant [of partial]) simp_all

subsection \<open>Identities\<close>

lemma group_ids_ok_mono: "group_ids_ok n flagged g \<Longrightarrow> n \<le> m \<Longrightarrow> group_ids_ok m flagged g"
  by (fastforce simp: group_ids_ok_def)

lemma group_ids_ok_flag:
  "group_ids_ok n flagged g \<Longrightarrow> n \<le> k \<Longrightarrow> group_ids_ok n (insert k flagged) g"
  by (fastforce simp: group_ids_ok_def)

lemma group_ids_ok_empty [simp]: "group_ids_ok n flagged \<lparr>title = t, steps = []\<rparr>"
  by (simp add: group_ids_ok_def)

lemma group_ids_ok_append [simp]:
  "group_ids_ok n flagged (g\<lparr>steps := steps g @ [s]\<rparr>) =
     (group_ids_ok n flagged g \<and> step_id s < n \<and> (step_id s \<in> flagged \<longrightarrow> title g = ''Cooldown''))"
  by (auto simp: group_ids_ok_def)

lemma ids_ok_state [simp]: "ids_ok (st\<lparr>state := s\<rparr>) = ids_ok st"
  by (simp add: ids_ok_def all_groups_def)

lemma ids_ok_partial [simp]: "ids_ok (st\<lparr>partial := b\<rparr>) = ids_ok st"
  by (simp add: ids_ok_def all_groups_def)

lemma ids_ok_flush_current: "ids_ok st \<Longrightarrow> ids_ok (flush_current st)"
  by (auto simp: ids_ok_def all_groups_def flush_current_def)

lemma ids_ok_start_group: "ids_ok st \<Longrightarrow> ids_ok (start_group t st)"
  by (auto simp: ids_ok_def all_groups_def flush_current_def start_group_def)

lemma ids_ok_start_repeat_group: "ids_ok st \<Longrightarrow> ids_ok (start_repeat_group n st)"
  by (auto simp: ids_ok_def all_groups_def flush_current_def start_repeat_group_def)

lemma ids_ok_close_repeat_group: "ids_ok st \<Longrightarrow> ids_ok (close_repeat_group st)"
  by (auto simp: ids_ok_def all_groups_def close_repeat_group_def split: option.splits)

lemma ids_ok_fallback: "ids_ok st \<Longrightarrow> ids_ok (add_hills_fallback_if_needed st)"
  by (auto simp: ids_ok_def all_groups_def add_hills_fallback_if_needed_def FALLBACK_STEP_def)

lemma ids_ok_new_str:
  assumes "ids_ok st"
  shows "ids_ok (snd (new_str txt st))"
  using assms
  by (auto simp: ids_ok_def all_groups_def new_str_def intro: group_ids_ok_mono less_SucI)

lemma new_str_fresh:
  assumes "ids_ok st"
  shows "step_id (fst (new_str txt st)) < next_id (snd (new_str txt st))"
    and "step_id (fst (new_str txt st)) \<notin> cooldown_steps (snd (new_str txt st))"
  using assms by (auto simp: ids_ok_def new_str_def)

lemma ids_ok_add_step:
  assumes ok: "ids_ok st" and lt: "step_id s < next_id st" and nf: "step_id s \<notin> cooldown_steps st"
  shows "ids_ok (add_step s ir st)"
proof (cases "target_repeat ir st")
  case None
  then have "add_step s ir st = st\<lparr>current := (current st)\<lparr>steps := steps (current st) @ [s]\<rparr>\<rparr>"
    by (simp add: add_step_def)
  then show ?thesis using ok lt nf by (auto simp: ids_ok_def all_groups_def)
next
  case (Some g)
  then have g: "repeat_group st = Some g"
    by (simp add: target_repeat_def split: if_splits)
  show ?thesis
  proof (cases "hills_mode st \<and> repeat_first_step_pending st")
    case True
    let ?t = "if startswith (step_text s) ''- '' then ''- run uphill '' @ drop 2 (step_text s)
              else ''run uphill '' @ step_text s"
    have eq: "add_step s ir st = (snd (new_str ?t st))\<lparr>repeat_first_step_pending := False,
        repeat_group := Some (g\<lparr>steps := steps g @ [fst (new_str ?t st)]\<rparr>)\<rparr>"
      using Some True by (simp add: add_step_def Let_def)
    have "ids_ok (snd (new_str ?t st))" using ok by (rule ids_ok_new_str)
    moreover have "repeat_group (snd (new_str ?t st)) = Some g" using g by (simp add: new_str_def)
    ultimately show ?thesis
      unfolding eq using new_str_fresh [OF ok, of ?t]
      by (auto simp: ids_ok_def all_groups_def)
  next
    case False
    then have "add_step s ir st = st\<lparr>repeat_group := Some (g\<lparr>steps := steps g @ [s]\<rparr>)\<rparr>"
      using Some by (auto simp: add_step_def)
    then show ?thesis using ok lt nf g by (auto simp: ids_ok_def all_groups_def)
  qed
qed

lemma ids_ok_emit: "ids_ok st \<Longrightarrow> ids_ok (emit txt ir st)"
  unfolding emit_def Let_def
  by (intro ids_ok_add_step ids_ok_new_str new_str_fresh)

lemma ids_ok_cooled:
  assumes "ids_ok st"
  shows "ids_ok (cooled txt st)"
proof -
  let ?st0 = "start_group ''Cooldown'' st"
  let ?s = "fst (new_str txt ?st0)" and ?st1 = "snd (new_str txt ?st0)"
  have ok0: "ids_ok ?st0" using assms by (rule ids_ok_start_group)
  then have ok1: "ids_ok ?st1" by (rule ids_ok_new_str)
  have id: "step_id ?s = next_id ?st0" "next_id ?st1 = Suc (next_id ?st0)"
    "cooldown_steps ?st1 = cooldown_steps ?st0" "groups ?st1 = groups ?st0"
    "repeat_group ?st1 = repeat_group ?st0" "current ?st1 = \<lparr>title = ''Cooldown'', steps = []\<rparr>"
    by (simp_all add: new_str_def start_group_def)
  have eq: "cooled txt st = ?st1\<lparr>current := \<lparr>title = ''Cooldown'', steps = [?s]\<rparr>,
      cooldown_steps := insert (step_id ?s) (cooldown_steps ?st1)\<rparr>"
    by (simp add: cooled_def Let_def add_step_def target_repeat_def id)
  have others: "\<forall>g \<in> set (groups ?st1) \<union> set_option (repeat_group ?st1).
      group_ids_ok (next_id ?st1) (insert (step_id ?s) (cooldown_steps ?st1)) g"
  proof
    fix g assume "g \<in> set (groups ?st1) \<union> set_option (repeat_group ?st1)"
    then have "g \<in> all_groups ?st0" by (auto simp: all_groups_def id)
    then have "group_ids_ok (next_id ?st0) (cooldown_steps ?st0) g"
      using ok0 by (simp add: ids_ok_def)
    then have "group_ids_ok (next_id ?st0) (insert (next_id ?st0) (cooldown_steps ?st0)) g"
      by (rule group_ids_ok_flag) simp
    then show "group_ids_ok (next_id ?st1) (insert (step_id ?s) (cooldown_steps ?st1)) g"
      unfolding id by (rule group_ids_ok_mono) simp
  qed
  have mine: "group_ids_ok (next_id ?st1) (insert (step_id ?s) (cooldown_steps ?st1))
      \<lparr>title = ''Cooldown'', steps = [?s]\<rparr>"
    by (simp add: group_ids_ok_def id)
  have bound: "\<forall>i \<in> insert (step_id ?s) (cooldown_steps ?st1). 0 < i \<and> i < next_id ?st1"
    using ok0 by (auto simp: ids_ok_def id)
  have pos: "0 < next_id ?st1" by (simp add: id)
  show ?thesis
    unfolding eq using others mine bound pos
    by (simp add: ids_ok_def all_groups_def)
qed

lemma ids_ok_init: "ids_ok (init_machine name description)"
  by (simp add: ids_ok_def all_groups_def init_machine_def)

lemma run_body_ids_ok:
  assumes "run_body lns (init_machine name description) = Inr st"
  shows "ids_ok st"
proof (rule run_body_invariant [of ids_ok, OF _ _ _ _ _ _ _ _ assms ids_ok_init])
  show "\<And>txt ir st. ids_ok st \<Longrightarrow> step_text_ok txt \<Longrightarrow> ids_ok (emit txt ir st)"
    by (rule ids_ok_emit)
  show "\<And>st. ids_ok st \<Longrightarrow> ids_ok (start_group ''Warmup'' st)"
    by (rule ids_ok_start_group)
  show "\<And>txt st. ids_ok st \<Longrightarrow> step_text_ok txt \<Longrightarrow> ids_ok (cooled txt st)"
    by (rule ids_ok_cooled)
  show "\<And>st. ids_ok st \<Longrightarrow> ids_ok (add_hills_fallback_if_needed (st\<lparr>partial := True\<rparr>))"
    by (rule ids_ok_fallback) simp
  show "\<And>st. ids_ok st \<Longrightarrow> ids_ok (close_repeat_group st)"
    by (rule ids_ok_close_repeat_group)
  show "\<And>st s. ids_ok st \<Longrightarrow> ids_ok (st\<lparr>state := s\<rparr>)"
    by simp
  show "\<And>st n. ids_ok st \<Longrightarrow> ids_ok (start_repeat_group n st)"
    by (rule ids_ok_start_repeat_group)
  show "\<And>st. ids_ok st \<Longrightarrow> ids_ok (flush_current st)"
    by (rule ids_ok_flush_current)
qed

lemma postprocess_ids_ok: "ids_ok st \<Longrightarrow> postprocess_trailing_cooldown st = st"
proof -
  assume ok: "ids_ok st"
  { assume ne: "groups st \<noteq> []" and t: "title (last (groups st)) = ''Main Set''"
      and s: "steps (last (groups st)) \<noteq> []"
      and f: "step_id (last (steps (last (groups st)))) \<in> cooldown_steps st"
    from ne have "last (groups st) \<in> all_groups st" by (simp add: all_groups_def)
    moreover from s have "last (steps (last (groups st))) \<in> set (steps (last (groups st)))" by simp
    ultimately have "title (last (groups st)) = ''Cooldown''" using ok f
      unfolding ids_ok_def group_ids_ok_def by blast
    with t have False by simp }
  then show ?thesis by (auto simp: postprocess_trailing_cooldown_def)
qed

section \<open>The relocation and the downhill rule\<close>


lemma emit_lands:
  "map step_text (prev_steps_of ir (emit txt ir st)) =
     map step_text (prev_steps_of ir st) @
       [if target_repeat ir st \<noteq> None \<and> hills_mode st \<and> repeat_first_step_pending st
        then rewritten_first txt else txt]"
  by (cases "target_repeat ir st")
    (auto simp: emit_def add_step_def new_str_def prev_steps_of_def target_repeat_def
      rewritten_first_def Let_def split: if_splits)

lemma downhill_rule_fires:
  assumes "hills_mode st" and "\<not> dropped (clean_line frag)"
    and "\<not> earlier_rule (lower (clean_line frag)) agc"
    and "downhill_words (lower (clean_line frag))"
  shows "process_fragment frag agc ir st =
     Inr (emit (''- Press lap, Jog Downhill '' @ jog_dur (prev_steps_of ir st) @ '' Z1-Z2 Pace'') ir st)"
  using assms
  by (auto simp add: process_fragment_def Let_def dropped_def earlier_rule_def downhill_words_def)

lemma jog_dur_cases:
  "jog_dur [] = ''120s''"
  "ps \<noteq> [] \<Longrightarrow> search (bounded_unit_at CHR ''s'') (step_text (last ps)) = Some ds \<Longrightarrow>
     jog_dur ps = str_of_nat (int_of_digits ds * 2) @ ''s''"
  "ps \<noteq> [] \<Longrightarrow> search (bounded_unit_at CHR ''s'') (step_text (last ps)) = None \<Longrightarrow>
     search (bounded_unit_at CHR ''m'') (step_text (last ps)) = Some ds \<Longrightarrow>
     jog_dur ps = str_of_nat (int_of_digits ds * 2) @ ''m''"
  "ps \<noteq> [] \<Longrightarrow> search (bounded_unit_at CHR ''s'') (step_text (last ps)) = None \<Longrightarrow>
     search (bounded_unit_at CHR ''m'') (step_text (last ps)) = None \<Longrightarrow>
     jog_dur ps = ''120s''"
  by (simp_all add: jog_dur_def Let_def)

section \<open>The rendered text\<close>

lemma split_char_not_Nil: "split_char d s \<noteq> []"
  by (induction s) (auto split: list.splits)

lemma split_char_no_sep: "d \<notin> set l \<Longrightarrow> split_char d l = [l]"
  by (induction l) (auto split: list.splits)

lemma split_char_Cons_no_sep:
  assumes "d \<notin> set l"
  shows "split_char d (l @ d # rest) = l # split_char d rest"
  using assms
proof (induction l)
  case Nil
  obtain p ps where "split_char d rest = p # ps"
    using split_char_not_Nil [of d rest] by (cases "split_char d rest") auto
  then show ?case by simp
next
  case (Cons c l)
  then show ?case by auto
qed

lemma join_Cons: "ls \<noteq> [] \<Longrightarrow> join sep (x # ls) = x @ sep @ join sep ls"
  by (cases ls) simp_all

lemma split_char_join:
  "ls \<noteq> [] \<Longrightarrow> list_all (\<lambda>l. d \<notin> set l) ls \<Longrightarrow> split_char d (join [d] ls) = ls"
proof (induction ls)
  case Nil
  then show ?case by simp
next
  case (Cons x ls)
  show ?case
  proof (cases "ls = []")
    case True
    then show ?thesis using Cons.prems by (simp add: split_char_no_sep)
  next
    case False
    then have "split_char d (join [d] ls) = ls" using Cons by simp
    moreover have "d \<notin> set x" using Cons.prems by simp
    ultimately show ?thesis using False by (simp add: join_Cons split_char_Cons_no_sep)
  qed
qed

lemma join_not_Nil: "ls \<noteq> [] \<Longrightarrow> last ls \<noteq> [] \<Longrightarrow> join sep ls \<noteq> []"
proof (induction ls)
  case Nil
  then show ?case by simp
next
  case (Cons x ls)
  then show ?case by (cases "ls = []") (simp_all add: join_Cons)
qed

lemma last_join: "ls \<noteq> [] \<Longrightarrow> last ls \<noteq> [] \<Longrightarrow> last (join sep ls) = last (last ls)"
proof (induction ls)
  case Nil
  then show ?case by simp
next
  case (Cons x ls)
  show ?case
  proof (cases "ls = []")
    case True
    then show ?thesis by simp
  next
    case False
    then have "join sep ls \<noteq> []" using Cons.prems by (simp add: join_not_Nil)
    then show ?thesis using False Cons by (simp add: join_Cons)
  qed
qed

lemma rstrip_id: "s \<noteq> [] \<Longrightarrow> \<not> is_space (last s) \<Longrightarrow> rstrip s = s"
proof -
  assume a: "s \<noteq> []" "\<not> is_space (last s)"
  then have "rev s \<noteq> []" "\<not> is_space (hd (rev s))" by (auto simp: hd_rev)
  then have "dropWhile is_space (rev s) = rev s" by (cases "rev s") auto
  then show ?thesis by (simp add: rstrip_def rstrip_with_def)
qed

lemma step_text_ok_line: "step_text_ok t \<Longrightarrow> is_step_line t \<and> t \<noteq> [] \<and> NL \<notin> set t \<and> \<not> is_space (last t)"
  by (auto simp: step_text_ok_def is_step_line_def)

lemma is_title_line_no_NL:
  assumes "is_title_line l"
  shows "NL \<notin> set l \<and> l \<noteq> []"
proof -
  from assms consider "l = ''Warmup''" | "l = ''Cooldown''" | "l = ''Main Set''"
    | (rep) "startswith l ''Main Set ''" "drop 9 l \<noteq> []" "last l = CHR ''x''"
        "list_all is_digit (butlast (drop 9 l))"
    unfolding is_title_line_def by blast
  then show ?thesis
  proof cases
    case rep
    from rep(1) obtain r where l: "l = ''Main Set '' @ r" by (auto simp: startswith_append)
    then have r: "drop 9 l = r" by simp
    with rep(2) have "r \<noteq> []" by simp
    then obtain b where b: "r = b @ [last r]" "b = butlast r"
      by (metis append_butlast_last_id)
    have "last r = CHR ''x''" using rep(3) l \<open>r \<noteq> []\<close> by simp
    moreover have "\<forall>c \<in> set b. is_digit c" using rep(4) r b(2) by (simp add: list_all_iff)
    then have "NL \<notin> set b" by (auto simp: is_digit_def)
    ultimately have "NL \<notin> set r" by (subst b(1)) simp
    then show ?thesis using l by simp
  qed simp_all
qed

lemma grammar_steps:
  "list_all step_text_ok ts \<Longrightarrow> grammar MoreSteps (ts @ rest) = grammar MoreSteps rest"
  by (induction ts) (auto dest: step_text_ok_line)

lemma grammar_group:
  assumes "group_wf g" and "steps g \<noteq> []"
  shows "grammar Title (group_lines g @ rest) = grammar MoreSteps rest"
proof -
  from assms(2) obtain s ss where s: "steps g = s # ss" by (cases "steps g") auto
  with assms(1) have ok: "step_text_ok (step_text s)" "list_all step_text_ok (map step_text ss)"
    and t: "is_title_line (title g)"
    by (auto simp: group_wf_def list_all_iff)
  have "group_lines g @ rest = title g # step_text s # (map step_text ss @ rest)"
    by (simp add: group_lines_def s)
  then show ?thesis using ok t by (simp add: grammar_steps step_text_ok_line)
qed

lemma grammar_more_groups:
  "list_all (\<lambda>g. group_wf g \<and> steps g \<noteq> []) gs \<Longrightarrow>
   grammar MoreSteps (concat (map (\<lambda>h. [] # group_lines h) gs))"
  by (induction gs) (simp_all add: grammar_group)

lemma grammar_render:
  assumes "gs \<noteq> []" and "list_all (\<lambda>g. group_wf g \<and> steps g \<noteq> []) gs"
  shows "grammar Title (render_lines gs)"
proof -
  from assms(1) obtain g rest where gs: "gs = g # rest" by (cases gs) auto
  with assms(2) show ?thesis
    by (simp add: render_lines_def grammar_group grammar_more_groups)
qed

lemma group_lines_no_NL:
  assumes "group_wf g"
  shows "list_all (\<lambda>l. NL \<notin> set l) (group_lines g)"
proof -
  have "NL \<notin> set (title g)"
    using assms is_title_line_no_NL by (simp add: group_wf_def)
  moreover have "\<forall>s \<in> set (steps g). NL \<notin> set (step_text s)"
    using assms step_text_ok_line by (simp add: group_wf_def list_all_iff)
  ultimately show ?thesis
    by (simp add: group_lines_def list_all_iff)
qed

lemma render_lines_no_NL:
  assumes "list_all (\<lambda>g. group_wf g \<and> steps g \<noteq> []) gs"
  shows "list_all (\<lambda>l. NL \<notin> set l) (render_lines gs)"
proof -
  have g: "\<And>g. g \<in> set gs \<Longrightarrow> \<forall>l \<in> set (group_lines g). NL \<notin> set l"
  proof -
    fix g assume "g \<in> set gs"
    then have "group_wf g" using assms by (simp add: list_all_iff)
    then have "list_all (\<lambda>l. NL \<notin> set l) (group_lines g)" by (rule group_lines_no_NL)
    then show "\<forall>l \<in> set (group_lines g). NL \<notin> set l" by (simp add: list_all_iff)
  qed
  show ?thesis
  proof (cases gs)
    case Nil
    then show ?thesis by (simp add: render_lines_def)
  next
    case (Cons h rest)
    then have "set (render_lines gs) \<subseteq> {[]} \<union> (\<Union>g \<in> set gs. set (group_lines g))"
      by (auto simp: render_lines_def)
    then show ?thesis using g by (auto simp: list_all_iff)
  qed
qed

lemma last_group_lines:
  "steps g \<noteq> [] \<Longrightarrow> group_lines g \<noteq> [] \<and> last (group_lines g) = step_text (last (steps g))"
  by (simp add: group_lines_def last_map)

lemma last_render_lines:
  assumes "gs \<noteq> []" and "list_all (\<lambda>g. group_wf g \<and> steps g \<noteq> []) gs"
  shows "render_lines gs \<noteq> [] \<and> last (render_lines gs) = step_text (last (steps (last gs)))"
proof -
  from assms(1) obtain g rest where gs: "gs = g # rest" by (cases gs) auto
  show ?thesis
  proof (cases "rest = []")
    case True
    then show ?thesis using gs assms(2) by (simp add: render_lines_def last_group_lines)
  next
    case False
    then have r: "rest = butlast rest @ [last rest]" by simp
    have "steps (last rest) \<noteq> []" using assms(2) gs False by (auto simp: list_all_iff)
    then have l: "group_lines (last rest) \<noteq> []"
      "last (group_lines (last rest)) = step_text (last (steps (last rest)))"
      by (simp_all add: last_group_lines)
    have "concat (map (\<lambda>h. [] # group_lines h) rest) =
        concat (map (\<lambda>h. [] # group_lines h) (butlast rest)) @ [] # group_lines (last rest)"
      by (subst r) (simp del: append_butlast_last_id)
    then have "render_lines gs = (group_lines g @ concat (map (\<lambda>h. [] # group_lines h) (butlast rest)) @ [[]])
        @ group_lines (last rest)"
      by (simp add: render_lines_def gs)
    then show ?thesis using l gs False by (simp del: append_assoc)
  qed
qed

lemma render_matches:
  assumes "gs \<noteq> []" and "list_all (\<lambda>g. group_wf g \<and> steps g \<noteq> []) gs"
  shows "rstrip (join [NL] (render_lines gs)) \<noteq> [] \<and> matches_grammar (rstrip (join [NL] (render_lines gs)))"
proof -
  let ?ls = "render_lines gs"
  have ne: "?ls \<noteq> []" and la: "last ?ls = step_text (last (steps (last gs)))"
    using last_render_lines [OF assms] by simp_all
  have "group_wf (last gs)" "steps (last gs) \<noteq> []"
    using assms by (auto simp: list_all_iff)
  then have "step_text_ok (step_text (last (steps (last gs))))"
    by (auto simp: group_wf_def list_all_iff)
  then have ok: "last ?ls \<noteq> []" "\<not> is_space (last (last ?ls))"
    using la by (auto dest: step_text_ok_line)
  have j: "join [NL] ?ls \<noteq> []" "last (join [NL] ?ls) = last (last ?ls)"
    using ne ok(1) by (simp_all add: join_not_Nil last_join)
  then have r: "rstrip (join [NL] ?ls) = join [NL] ?ls"
    using ok(2) by (intro rstrip_id) simp_all
  have "split_char NL (join [NL] ?ls) = ?ls"
    using ne render_lines_no_NL [OF assms(2)] by (rule split_char_join)
  then have "matches_grammar (join [NL] ?ls)"
    using grammar_render [OF assms] by (simp add: matches_grammar_def)
  then show ?thesis using r j by simp
qed

subsection \<open>Well-formed groups\<close>

lemma is_title_line_plain [simp]:
  "is_title_line ''Warmup''" "is_title_line ''Cooldown''" "is_title_line ''Main Set''"
  by (simp_all add: is_title_line_def)

lemma is_title_line_repeat: "is_title_line (''Main Set '' @ str_of_nat n @ ''x'')"
proof -
  have "list_all is_digit (str_of_nat n)" using str_of_nat_digits by (simp add: list_all_iff)
  then show ?thesis by (simp add: is_title_line_def str_of_nat_not_Nil butlast_append)
qed

lemma is_title_line_repeat_Cons:
  "is_title_line (CHR ''M'' # CHR ''a'' # CHR ''i'' # CHR ''n'' # CHR '' '' # CHR ''S'' # CHR ''e'' #
     CHR ''t'' # CHR '' '' # str_of_nat n @ ''x'')"
  using is_title_line_repeat [of n] by simp

lemma new_str_parts:
  "fst (new_str t st) = \<lparr>step_id = next_id st, step_text = t\<rparr>"
  "snd (new_str t st) = st\<lparr>next_id := Suc (next_id st)\<rparr>"
  by (simp_all add: new_str_def)

lemma target_repeat_next_id [simp]: "target_repeat ir (st\<lparr>next_id := k\<rparr>) = target_repeat ir st"
  by (simp add: target_repeat_def)

lemma step_text_ok_fallback: "step_text_ok (step_text FALLBACK_STEP)"
  by (simp add: step_text_ok_def FALLBACK_STEP_def is_space_def)

lemma step_text_ok_rewritten: "step_text_ok txt \<Longrightarrow> step_text_ok (rewritten_first txt)"
  by (auto simp: step_text_ok_def rewritten_first_def dest: in_set_dropD)

lemma group_wf_empty [simp]: "group_wf \<lparr>title = t, steps = []\<rparr> = is_title_line t"
  by (simp add: group_wf_def)

lemma group_wf_append [simp]:
  "group_wf (g\<lparr>steps := steps g @ [s]\<rparr>) = (group_wf g \<and> step_text_ok (step_text s))"
  by (auto simp: group_wf_def)

lemma machine_wf_state [simp]: "machine_wf (st\<lparr>state := s\<rparr>) = machine_wf st"
  by (simp add: machine_wf_def)

lemma machine_wf_partial [simp]: "machine_wf (st\<lparr>partial := b\<rparr>) = machine_wf st"
  by (simp add: machine_wf_def)

lemma machine_wf_init: "machine_wf (init_machine name description)"
  by (simp add: machine_wf_def init_machine_def)

lemma machine_wf_flush_current: "machine_wf st \<Longrightarrow> machine_wf (flush_current st)"
  by (auto simp: machine_wf_def flush_current_def)

lemma machine_wf_start_group: "machine_wf st \<Longrightarrow> is_title_line t \<Longrightarrow> machine_wf (start_group t st)"
  by (auto simp: machine_wf_def flush_current_def start_group_def)

lemma machine_wf_start_repeat_group: "machine_wf st \<Longrightarrow> machine_wf (start_repeat_group n st)"
  by (auto simp: machine_wf_def flush_current_def start_repeat_group_def is_title_line_repeat_Cons)

lemma machine_wf_close_repeat_group: "machine_wf st \<Longrightarrow> machine_wf (close_repeat_group st)"
  by (auto simp: machine_wf_def close_repeat_group_def split: option.splits)

lemma machine_wf_fallback: "machine_wf st \<Longrightarrow> machine_wf (add_hills_fallback_if_needed st)"
  by (auto simp: machine_wf_def add_hills_fallback_if_needed_def step_text_ok_fallback)

lemma machine_wf_emit:
  assumes "machine_wf st" and "step_text_ok txt"
  shows "machine_wf (emit txt ir st)"
proof (cases "target_repeat ir st")
  case None
  then have "emit txt ir st = st\<lparr>next_id := Suc (next_id st),
      current := (current st)\<lparr>steps := steps (current st) @ [\<lparr>step_id = next_id st, step_text = txt\<rparr>]\<rparr>\<rparr>"
    by (simp add: emit_def add_step_def new_str_parts Let_def)
  then show ?thesis using assms by (simp add: machine_wf_def)
next
  case (Some g)
  then have g: "repeat_group st = Some g" by (simp add: target_repeat_def split: if_splits)
  have "\<exists>s k. step_text_ok (step_text s) \<and>
      emit txt ir st = st\<lparr>next_id := k, repeat_first_step_pending := False,
         repeat_group := Some (g\<lparr>steps := steps g @ [s]\<rparr>)\<rparr> \<or>
      step_text_ok (step_text s) \<and>
      emit txt ir st = st\<lparr>next_id := k, repeat_group := Some (g\<lparr>steps := steps g @ [s]\<rparr>)\<rparr>"
  proof (cases "hills_mode st \<and> repeat_first_step_pending st")
    case True
    have "emit txt ir st = st\<lparr>next_id := Suc (Suc (next_id st)), repeat_first_step_pending := False,
        repeat_group := Some (g\<lparr>steps := steps g @
           [\<lparr>step_id = Suc (next_id st), step_text = rewritten_first txt\<rparr>]\<rparr>)\<rparr>"
      using Some True
      by (simp add: emit_def add_step_def new_str_parts Let_def rewritten_first_def)
    moreover have "step_text_ok (step_text \<lparr>step_id = Suc (next_id st), step_text = rewritten_first txt\<rparr>)"
      using assms(2) by (simp add: step_text_ok_rewritten)
    ultimately show ?thesis by blast
  next
    case False
    have "emit txt ir st = st\<lparr>next_id := Suc (next_id st),
        repeat_group := Some (g\<lparr>steps := steps g @ [\<lparr>step_id = next_id st, step_text = txt\<rparr>]\<rparr>)\<rparr>"
      using Some False
      by (auto simp add: emit_def add_step_def new_str_parts Let_def)
    moreover have "step_text_ok (step_text \<lparr>step_id = next_id st, step_text = txt\<rparr>)"
      using assms(2) by simp
    ultimately show ?thesis by blast
  qed
  then show ?thesis using assms(1) g by (auto simp: machine_wf_def)
qed

lemma machine_wf_cooled:
  assumes "machine_wf st" and "step_text_ok txt"
  shows "machine_wf (cooled txt st)"
proof -
  have "machine_wf (emit txt False (start_group ''Cooldown'' st))"
    using assms by (intro machine_wf_emit machine_wf_start_group) simp_all
  moreover have "cooled txt st = (emit txt False (start_group ''Cooldown'' st))
      \<lparr>cooldown_steps := insert (step_id (fst (new_str txt (start_group ''Cooldown'' st))))
         (cooldown_steps (emit txt False (start_group ''Cooldown'' st)))\<rparr>"
    by (simp add: cooled_def emit_def Let_def)
  ultimately show ?thesis by (simp add: machine_wf_def)
qed

lemma run_body_machine_wf:
  assumes "run_body lns (init_machine name description) = Inr st"
  shows "machine_wf st"
proof (rule run_body_invariant [of machine_wf, OF _ _ _ _ _ _ _ _ assms machine_wf_init])
  show "\<And>txt ir st. machine_wf st \<Longrightarrow> step_text_ok txt \<Longrightarrow> machine_wf (emit txt ir st)"
    by (rule machine_wf_emit)
  show "\<And>st. machine_wf st \<Longrightarrow> machine_wf (start_group ''Warmup'' st)"
    by (rule machine_wf_start_group) simp_all
  show "\<And>txt st. machine_wf st \<Longrightarrow> step_text_ok txt \<Longrightarrow> machine_wf (cooled txt st)"
    by (rule machine_wf_cooled)
  show "\<And>st. machine_wf st \<Longrightarrow> machine_wf (add_hills_fallback_if_needed (st\<lparr>partial := True\<rparr>))"
    by (rule machine_wf_fallback) simp
  show "\<And>st. machine_wf st \<Longrightarrow> machine_wf (close_repeat_group st)"
    by (rule machine_wf_close_repeat_group)
  show "\<And>st s. machine_wf st \<Longrightarrow> machine_wf (st\<lparr>state := s\<rparr>)"
    by simp
  show "\<And>st n. machine_wf st \<Longrightarrow> machine_wf (start_repeat_group n st)"
    by (rule machine_wf_start_repeat_group)
  show "\<And>st. machine_wf st \<Longrightarrow> machine_wf (flush_current st)"
    by (rule machine_wf_flush_current)
qed

lemma matches_grammar_default: "DEFAULT_TEXT \<noteq> [] \<and> matches_grammar DEFAULT_TEXT"
  by (simp add: DEFAULT_TEXT_def matches_grammar_def is_step_line_def)

lemma matches_grammar_single:
  assumes "quantity_chars d"
  shows "matches_grammar (''Main Set'' @ [NL] @ ''- '' @ d @ '' '' @ single_line_easy_zone)"
proof -
  have "NL \<notin> set (''- '' @ d @ '' '' @ single_line_easy_zone)"
    using assms by (auto simp: single_line_easy_zone_def dest: quantity_chars_no_NL)
  then have "split_char NL (''- '' @ d @ '' '' @ single_line_easy_zone)
      = [''- '' @ d @ '' '' @ single_line_easy_zone]"
    by (rule split_char_no_sep)
  moreover have "split_char NL (''Main Set'' @ NL # (''- '' @ d @ '' '' @ single_line_easy_zone))
      = ''Main Set'' # split_char NL (''- '' @ d @ '' '' @ single_line_easy_zone)"
    by (rule split_char_Cons_no_sep) simp
  ultimately show ?thesis
    by (simp add: matches_grammar_def is_step_line_def)
qed

lemma translate_matches:
  assumes "translate_workout_to_intervals_text name description = Inr (out, p)"
  shows "out \<noteq> [] \<and> matches_grammar out"
proof (cases "splitlines description")
  case Nil
  then have "out = DEFAULT_TEXT"
    using assms by (simp add: translate_workout_to_intervals_text_def translate_def init_machine_def)
  then show ?thesis using matches_grammar_default by simp
next
  case (Cons first_line body_lines)
  show ?thesis
  proof (cases "body_lines = []")
    case True
    then obtain dist where d: "parse_distance first_line = Inr dist"
      using assms Cons
      by (cases "parse_distance first_line")
        (simp_all add: translate_workout_to_intervals_text_def translate_def init_machine_def)
    then have "out = DEFAULT_TEXT \<or>
        (truthy dist \<and> out = ''Main Set'' @ [NL] @ ''- '' @ the dist @ '' '' @ single_line_easy_zone)"
      using assms Cons True
      by (auto simp: translate_workout_to_intervals_text_def translate_def init_machine_def Let_def
          split: if_splits)
    then show ?thesis
    proof
      assume "out = DEFAULT_TEXT"
      then show ?thesis using matches_grammar_default by simp
    next
      assume a: "truthy dist \<and> out = ''Main Set'' @ [NL] @ ''- '' @ the dist @ '' '' @ single_line_easy_zone"
      then obtain q where "dist = Some q" by (auto dest: truthy_Some)
      then have "quantity_chars (the dist)" using d parse_distance_chars by auto
      then show ?thesis using a matches_grammar_single by simp
    qed
  next
    case False
    then obtain st where r: "run_body body_lines (init_machine name description) = Inr st"
      using assms Cons
      by (cases "run_body body_lines (init_machine name description)")
        (simp_all add: translate_workout_to_intervals_text_def translate_def init_machine_def)
    have post: "postprocess_trailing_cooldown st = st"
      using r by (intro postprocess_ids_ok run_body_ids_ok)
    have wf: "list_all (\<lambda>g. group_wf g \<and> steps g \<noteq> []) (groups st)"
      using run_body_machine_wf [OF r] by (simp add: machine_wf_def)
    have tr: "translate (init_machine name description) =
        (if render_lines (groups st) = [] then Inr (DEFAULT_TEXT, True)
         else Inr (rstrip (join [NL] (render_lines (groups st))), partial st))"
      using Cons False r post
      by (simp add: translate_def Let_def init_machine_def [of name description, THEN arg_cong [of _ _ full_description]])
    show ?thesis
    proof (cases "render_lines (groups st) = []")
      case True
      then have "out = DEFAULT_TEXT"
        using assms tr by (simp add: translate_workout_to_intervals_text_def)
      then show ?thesis using matches_grammar_default by simp
    next
      case ne: False
      then have "groups st \<noteq> []" by (auto simp: render_lines_def)
      moreover have "out = rstrip (join [NL] (render_lines (groups st)))"
        using assms tr ne by (simp add: translate_workout_to_intervals_text_def)
      ultimately show ?thesis using render_matches wf by simp
    qed
  qed
qed

subsection \<open>A metre count too large for a float\<close>

lemma splitlines_from_plain:
  "list_all (\<lambda>c. \<not> is_linebreak c) s \<Longrightarrow> acc @ s \<noteq> [] \<Longrightarrow>
   splitlines_from False acc s = [rev acc @ s]"
  by (induction s arbitrary: acc) auto

lemma splitlines_plain:
  "s \<noteq> [] \<Longrightarrow> list_all (\<lambda>c. \<not> is_linebreak c) s \<Longrightarrow> splitlines s = [s]"
  using splitlines_from_plain [of s "[]"] by (simp add: splitlines_def)

lemma digits_then_m_split:
  "list_all is_digit ds \<Longrightarrow>
   takeWhile is_digit (ds @ ''m'') = ds \<and> dropWhile is_digit (ds @ ''m'') = ''m''"
  by (induction ds) (simp_all add: is_digit_def)

lemma km_at_digits_then_m: "list_all is_digit ds \<Longrightarrow> km_at prev (ds @ ''m'') = None"
  by (simp add: km_at_def digits_then_m_split Let_def is_space_def lower_char_def)

lemma search_km_digits_then_m: "list_all is_digit ds \<Longrightarrow> re_search km_at prev (ds @ ''m'') = None"
proof (induction ds arbitrary: prev)
  case Nil
  have "km_at prev ''m'' = None" "km_at (Some CHR ''m'') [] = None"
    by (simp_all add: km_at_def is_digit_def)
  then show ?case by simp
next
  case (Cons c cs)
  have "km_at prev ((c # cs) @ ''m'') = None"
    using Cons.prems by (rule km_at_digits_then_m)
  moreover have "re_search km_at (Some c) (cs @ ''m'') = None"
    using Cons by simp
  ultimately show ?case by simp
qed

lemma search_m_digits_then_m:
  assumes "list_all is_digit ds" and "ds \<noteq> []"
  shows "search (unit_at CHR ''m'') (ds @ ''m'') = Some ds"
proof -
  have "unit_at CHR ''m'' None (ds @ ''m'') = Some ds"
    using assms
    by (simp add: unit_at_def digits_then_m_split Let_def is_space_def lower_char_def next_is_word_def)
  then show ?thesis using assms(2) by (cases ds) (simp_all add: search_def)
qed

lemma parse_distance_digits_then_m:
  assumes "list_all is_digit ds" and "ds \<noteq> []"
  shows "parse_distance (ds @ ''m'') =
     (case meters_to_km_str (int_of_digits ds) of Inl err \<Rightarrow> Inl err | Inr s \<Rightarrow> Inr (Some s))"
  using assms
  by (simp add: parse_distance_def search_def search_km_digits_then_m search_m_digits_then_m [unfolded search_def])

lemma digit_val_zero_one: "digit_val CHR ''0'' = 0" "digit_val CHR ''1'' = 1"
  by (simp_all add: digit_val_def)

lemma foldl_digits_zeros:
  "foldl (\<lambda>a c. 10 * a + digit_val c) a (replicate n CHR ''0'') = a * 10 ^ n"
  by (induction n arbitrary: a) (simp_all add: digit_val_zero_one)

lemma int_of_digits_one_zeros: "int_of_digits (''1'' @ replicate n CHR ''0'') = 10 ^ n"
  by (simp add: int_of_digits_def foldl_digits_zeros digit_val_zero_one)

lemma int_to_double_overflow: "int_to_double (10 ^ 309) = Inl OverflowError"
  by (simp add: float_eval)

section \<open>The claims\<close>

text \<open>
  C1.  The description of \<^verbatim>\<open>test_repeat_without_separators\<close>: a title line, a blank line,
  the header \<^verbatim>\<open>11 reps of:\<close> and directly after it the line
  \<^verbatim>\<open>60s running hard uphill, 30s walking rest. Easy jog back down.\<close>  The text mentions
  \<open>uphill\<close>, so hills mode is on.  The claim expects a group \<open>Main Set 11x\<close> with a
  \<open>Z3-Z5 HR\<close> step, \<open>run uphill\<close> on the first step, and a \<open>Jog Downhill\<close> step.  The
  translator gives the group and the first two, but no \<open>Jog Downhill\<close> step: the second
  fragment of the line, \<^verbatim>\<open>30s walking rest. Easy jog back down\<close>, is taken by the
  \<open>walking rest\<close> rule, which comes before the hills rules.  This holds for every workout name.
\<close>

theorem hills_repeat_line_gives_no_jog_downhill:
  "translate_workout_to_intervals_text name
     (''Hills 8km'' @ [NL] @ [NL] @ ''11 reps of:'' @ [NL] @
      ''60s running hard uphill, 30s walking rest. Easy jog back down.'' @ [NL])
   = Inr (''Main Set 11x'' @ [NL] @ ''- run uphill 60s Z3-Z5 HR'' @ [NL] @ ''- 30s Z1 Pace'', False)"
  by (simp add: all_eval cong: let_weak_cong)

text \<open>
  C2.  A description of exactly one line.  The claim gives the easy-run step when the line
  yields a distance and contains \<open>easy\<close> or \<open>conversational\<close>, or when the workout name
  starts with \<open>easy run\<close> and the line contains \<open>easy\<close>, and the default otherwise.  The
  second test of the source is \<^verbatim>\<open>self.workout_name.lower().startswith("easy run") and dist\<close>:
  it does not look for \<open>easy\<close> in the line.  With the name \<open>Easy Run\<close> the line
  \<open>5km tempo\<close> gives the easy-run step, not the default.
\<close>

theorem single_line_easy_run_title_counterexample:
  "splitlines ''5km tempo'' = [''5km tempo''] \<and>
   \<not> contains ''easy'' (lower ''5km tempo'') \<and>
   \<not> contains ''conversational'' (lower ''5km tempo'') \<and>
   translate_workout_to_intervals_text ''Easy Run'' ''5km tempo''
     = Inr (''Main Set'' @ [NL] @ ''- 5km Z2-Z3 Pace'', False)"
  by (simp add: all_eval cong: let_weak_cong)

text \<open>
  C2, as amended.  For a description of exactly one line: when the line yields a distance
  and either contains \<open>easy\<close> or \<open>conversational\<close> or the workout name starts with
  \<open>easy run\<close> (ignoring case), the result is the group \<open>Main Set\<close> with the one step
  \<open>- <dist> Z2-Z3 Pace\<close> and partial false; when the distance parser returns and that
  condition fails, the result is the default with partial true; when the distance parser
  raises (a metre count too large for a float), so does the translation.
\<close>

theorem single_line_fallback:
  assumes "splitlines description = [line]"
  shows "translate_workout_to_intervals_text name description =
     (case parse_distance line of
        Inl err \<Rightarrow> Inl err
      | Inr dist \<Rightarrow>
          if truthy dist \<and> (contains ''easy'' (lower line) \<or> contains ''conversational'' (lower line) \<or>
                            startswith (lower name) ''easy run'')
          then Inr (''Main Set'' @ [NL] @ ''- '' @ the dist @ '' Z2-Z3 Pace'', False)
          else Inr (''Main Set'' @ [NL] @ ''- 60m Z1-Z2 Pace'', True))"
  using assms
  by (auto simp: translate_workout_to_intervals_text_def translate_def init_machine_def
      DEFAULT_TEXT_def single_line_easy_zone_def split: sum.splits)

theorem single_line_fallback_witness:
  "splitlines ''12km easy'' = [''12km easy''] \<and>
   translate_workout_to_intervals_text ''Run'' ''12km easy''
     = Inr (''Main Set'' @ [NL] @ ''- 12km Z2-Z3 Pace'', False)"
proof -
  have h: "splitlines ''12km easy'' = [''12km easy'']"
    by (simp add: char_eval str_eval)
  have "parse_distance ''12km easy'' = Inr (Some ''12km'')"
    by (simp add: char_eval str_eval re_eval parse_eval Let_def cong: let_weak_cong)
  with single_line_fallback [OF h, of "''Run''"] h show ?thesis
    by (simp add: char_eval truthy_def)
qed





text \<open>
  C4.  For every workout name, an empty description is translated to the two lines
  \<open>Main Set\<close> and \<open>- 60m Z1-Z2 Pace\<close>, with the partial flag set.
\<close>

theorem empty_description_gives_default:
  "translate_workout_to_intervals_text name [] = Inr (''Main Set'' @ [NL] @ ''- 60m Z1-Z2 Pace'', True)
   \<and> splitlines (''Main Set'' @ [NL] @ ''- 60m Z1-Z2 Pace'') = [''Main Set'', ''- 60m Z1-Z2 Pace'']"
  by (simp add: translate_workout_to_intervals_text_def translate_def init_machine_def
      splitlines_def DEFAULT_TEXT_def is_linebreak_def)

text \<open>
  C5.  The claim is for every workout name and description.  A line whose only distance is
  a metre count that does not fit a float makes \<^verbatim>\<open>meters / 1000.0\<close> raise
  \<^verbatim>\<open>OverflowError\<close>, and the translation returns no text: here the description is the
  digit 1, 309 zeros and the letter m.
\<close>

theorem huge_metre_count_raises_counterexample:
  "translate_workout_to_intervals_text ''Run'' (''1'' @ replicate 309 CHR ''0'' @ ''m'')
     = Inl OverflowError"
proof -
  let ?ds = "''1'' @ replicate 309 CHR ''0''"
  have d: "list_all is_digit ?ds" "?ds \<noteq> []"
    by (simp_all add: is_digit_def list_all_iff)
  then have nb: "list_all (\<lambda>c. \<not> is_linebreak c) (?ds @ ''m'')"
    by (auto simp: list_all_iff is_digit_def is_linebreak_def)
  have l: "splitlines (?ds @ ''m'') = [?ds @ ''m'']"
    using nb by (intro splitlines_plain) simp_all
  have "meters_to_km_str (int_of_digits ?ds) = Inl OverflowError"
    unfolding meters_to_km_str_def int_of_digits_one_zeros int_to_double_overflow by simp
  then have "parse_distance (?ds @ ''m'') = Inl OverflowError"
    using parse_distance_digits_then_m [OF d] by simp
  then show ?thesis
    using l by (simp add: translate_workout_to_intervals_text_def translate_def init_machine_def)
qed

text \<open>
  C5, as amended.  For every workout name and description for which the translation
  returns, the rendered text is not empty and matches the grammar: groups of a title line
  and at least one step line beginning with \<open>- \<close>, exactly one empty line between two
  groups.  No finished group of the machine is without a step.
\<close>

theorem output_matches_group_grammar:
  "(translate_workout_to_intervals_text name description = Inr (out, p)
      \<longrightarrow> out \<noteq> [] \<and> matches_grammar out) \<and>
   (run_body body_lines (init_machine name description) = Inr st
      \<longrightarrow> list_all (\<lambda>g. steps g \<noteq> []) (groups st))"
proof (intro conjI impI)
  assume "translate_workout_to_intervals_text name description = Inr (out, p)"
  then show "out \<noteq> []" "matches_grammar out"
    using translate_matches by blast+
next
  assume "run_body body_lines (init_machine name description) = Inr st"
  then have "machine_wf st" by (rule run_body_machine_wf)
  then show "list_all (\<lambda>g. steps g \<noteq> []) (groups st)"
    by (simp add: machine_wf_def list_all_iff)
qed

theorem output_matches_group_grammar_witness:
  "translate_workout_to_intervals_text ''Rolling 400s''
       (''Rolling 400s'' @ [NL] @ ''3.5km warm up'' @ [NL] @ ''2 reps of:'' @ [NL] @
        ''400m at 4:55/km, 90s walking rest'' @ [NL] @ [NL] @ ''2.5km cool down'')
     = Inr (''Warmup'' @ [NL] @ ''- 3.5km ramp Z1-Z3 Pace'' @ [NL] @ [NL] @
            ''Main Set 2x'' @ [NL] @ ''- 0.4km 4:55/km Pace'' @ [NL] @ ''- 90s Z1 Pace'' @ [NL] @ [NL] @
            ''Cooldown'' @ [NL] @ ''- 2.5km ramp Z3-Z1 Pace'', False) \<and>
   matches_grammar (''Warmup'' @ [NL] @ ''- 3.5km ramp Z1-Z3 Pace'' @ [NL] @ [NL] @
            ''Main Set 2x'' @ [NL] @ ''- 0.4km 4:55/km Pace'' @ [NL] @ ''- 90s Z1 Pace'' @ [NL] @ [NL] @
            ''Cooldown'' @ [NL] @ ''- 2.5km ramp Z3-Z1 Pace'') \<and>
   (\<exists>st. run_body [''3.5km warm up'', ''2 reps of:'', ''400m at 4:55/km, 90s walking rest'', [], ''2.5km cool down'']
          (init_machine ''Rolling 400s''
            (''Rolling 400s'' @ [NL] @ ''3.5km warm up'' @ [NL] @ ''2 reps of:'' @ [NL] @
             ''400m at 4:55/km, 90s walking rest'' @ [NL] @ [NL] @ ''2.5km cool down'')) = Inr st \<and>
         map (\<lambda>g. length (steps g)) (groups st) = [1, 2, 1])"
proof -
  let ?d = "''Rolling 400s'' @ [NL] @ ''3.5km warm up'' @ [NL] @ ''2 reps of:'' @ [NL] @
        ''400m at 4:55/km, 90s walking rest'' @ [NL] @ [NL] @ ''2.5km cool down''"
  let ?out = "''Warmup'' @ [NL] @ ''- 3.5km ramp Z1-Z3 Pace'' @ [NL] @ [NL] @
            ''Main Set 2x'' @ [NL] @ ''- 0.4km 4:55/km Pace'' @ [NL] @ ''- 90s Z1 Pace'' @ [NL] @ [NL] @
            ''Cooldown'' @ [NL] @ ''- 2.5km ramp Z3-Z1 Pace''"
  let ?b = "[''3.5km warm up'', ''2 reps of:'', ''400m at 4:55/km, 90s walking rest'', [], ''2.5km cool down'']"
  obtain st where r: "run_body ?b (init_machine ''Rolling 400s'' ?d) = Inr st"
    and n: "map (\<lambda>g. length (steps g)) (groups st) = [1, 2, 1]"
    by (simp add: all_eval cong: let_weak_cong)
  have t: "translate_workout_to_intervals_text ''Rolling 400s'' ?d = Inr (?out, False)"
    by (simp add: all_eval cong: let_weak_cong)
  have "matches_grammar ?out \<and> list_all (\<lambda>g. steps g \<noteq> []) (groups st)"
    using output_matches_group_grammar [of "''Rolling 400s''" ?d ?out False ?b st] t r by blast
  with t r n show ?thesis by (intro conjI exI [of _ st]) simp_all
qed

text \<open>
  C6.  The claim says that the downhill rule emits the step
  \<open>- Press lap, Jog Downhill <dur> Z1-Z2 Pace\<close>.  When the step is the first of a repeat
  group, hills mode being on, the first-step rewrite puts \<open>run uphill\<close> into it.
\<close>

theorem first_downhill_step_is_rewritten_counterexample:
  "translate_workout_to_intervals_text ''Hills''
      (''Hill session'' @ [NL] @ ''3 reps of:'' @ [NL] @ ''jog downhill'')
     = Inr (''Main Set 3x'' @ [NL] @ ''- run uphill Press lap, Jog Downhill 120s Z1-Z2 Pace'', False)"
  by (simp add: all_eval cong: let_weak_cong)

text \<open>
  C6, as amended.  In hills mode a fragment that is not dropped, that no earlier rule takes
  and that has one of the downhill phrases hands the step
  \<open>- Press lap, Jog Downhill <dur> Z1-Z2 Pace\<close> to \<^verbatim>\<open>_add_step\<close>; the step is appended to the
  target group as it is, or with \<open>run uphill\<close> after the dash when it is the first step of
  the open repeat group.  \<open><dur>\<close> is \<open>120s\<close> when the target group has no step yet or its
  last step has neither a seconds nor a minutes duration; otherwise it is twice the seconds
  of the last step, in seconds, or else twice its minutes, in minutes.
\<close>

theorem downhill_jog_rule:
  "(hills_mode st \<and> \<not> dropped (clean_line frag) \<and> \<not> earlier_rule (lower (clean_line frag)) agc \<and>
    downhill_words (lower (clean_line frag))
      \<longrightarrow> process_fragment frag agc ir st =
            Inr (emit (''- Press lap, Jog Downhill '' @ jog_dur (prev_steps_of ir st) @ '' Z1-Z2 Pace'') ir st) \<and>
          map step_text (prev_steps_of ir
             (emit (''- Press lap, Jog Downhill '' @ jog_dur (prev_steps_of ir st) @ '' Z1-Z2 Pace'') ir st))
           = map step_text (prev_steps_of ir st) @
             [if target_repeat ir st \<noteq> None \<and> repeat_first_step_pending st
              then ''- run uphill Press lap, Jog Downhill '' @ jog_dur (prev_steps_of ir st) @ '' Z1-Z2 Pace''
              else ''- Press lap, Jog Downhill '' @ jog_dur (prev_steps_of ir st) @ '' Z1-Z2 Pace'']) \<and>
   jog_dur [] = ''120s'' \<and>
   (ps \<noteq> [] \<and> search (bounded_unit_at CHR ''s'') (step_text (last ps)) = None \<and>
    search (bounded_unit_at CHR ''m'') (step_text (last ps)) = None
      \<longrightarrow> jog_dur ps = ''120s'') \<and>
   (ps \<noteq> [] \<and> search (bounded_unit_at CHR ''s'') (step_text (last ps)) = Some ds
      \<longrightarrow> jog_dur ps = str_of_nat (int_of_digits ds * 2) @ ''s'') \<and>
   (ps \<noteq> [] \<and> search (bounded_unit_at CHR ''s'') (step_text (last ps)) = None \<and>
    search (bounded_unit_at CHR ''m'') (step_text (last ps)) = Some ds
      \<longrightarrow> jog_dur ps = str_of_nat (int_of_digits ds * 2) @ ''m'')"
proof (intro conjI impI)
  assume a: "hills_mode st \<and> \<not> dropped (clean_line frag) \<and>
    \<not> earlier_rule (lower (clean_line frag)) agc \<and> downhill_words (lower (clean_line frag))"
  then show "process_fragment frag agc ir st =
      Inr (emit (''- Press lap, Jog Downhill '' @ jog_dur (prev_steps_of ir st) @ '' Z1-Z2 Pace'') ir st)"
    by (intro downhill_rule_fires) simp_all
  from a show "map step_text (prev_steps_of ir
             (emit (''- Press lap, Jog Downhill '' @ jog_dur (prev_steps_of ir st) @ '' Z1-Z2 Pace'') ir st))
           = map step_text (prev_steps_of ir st) @
             [if target_repeat ir st \<noteq> None \<and> repeat_first_step_pending st
              then ''- run uphill Press lap, Jog Downhill '' @ jog_dur (prev_steps_of ir st) @ '' Z1-Z2 Pace''
              else ''- Press lap, Jog Downhill '' @ jog_dur (prev_steps_of ir st) @ '' Z1-Z2 Pace'']"
    by (simp add: emit_lands rewritten_first_def)
qed (simp_all add: jog_dur_cases)

theorem downhill_jog_rule_witness:
  "(let st = (init_machine ''Hills'' ''hill repeats'')
        \<lparr>repeat_group := Some \<lparr>title = ''Main Set 3x'',
                                 steps = [\<lparr>step_id = 2, step_text = ''- run uphill 60s Z3-Z5 HR''\<rparr>]\<rparr>,
         state := REPEAT_OPEN, next_id := 3\<rparr>
    in process_fragment ''Easy jog back down.'' False True st
         = Inr (emit ''- Press lap, Jog Downhill 120s Z1-Z2 Pace'' True st) \<and>
       map step_text (prev_steps_of True (emit ''- Press lap, Jog Downhill 120s Z1-Z2 Pace'' True st))
         = [''- run uphill 60s Z3-Z5 HR'', ''- Press lap, Jog Downhill 120s Z1-Z2 Pace''])
   \<and> jog_dur [\<lparr>step_id = 1, step_text = ''- 2m ramp Z1-Z3 Pace''\<rparr>] = ''4m''
   \<and> jog_dur [\<lparr>step_id = 1, step_text = ''- 0.4km 4:55/km Pace''\<rparr>] = ''120s''"
proof -
  let ?st = "(init_machine ''Hills'' ''hill repeats'')
        \<lparr>repeat_group := Some \<lparr>title = ''Main Set 3x'',
                                 steps = [\<lparr>step_id = 2, step_text = ''- run uphill 60s Z3-Z5 HR''\<rparr>]\<rparr>,
         state := REPEAT_OPEN, next_id := 3\<rparr>"
  let ?frag = "''Easy jog back down.''"
  have c: "clean_line ?frag = ''Easy jog back down''"
    by (simp add: char_eval str_eval re_eval)
  have h: "hills_mode ?st \<and> \<not> dropped (clean_line ?frag) \<and>
      \<not> earlier_rule (lower (clean_line ?frag)) False \<and> downhill_words (lower (clean_line ?frag))"
    unfolding c
    by (simp add: init_machine_def is_hills_by_text_def dropped_def earlier_rule_def
        downhill_words_def FAST_BURSTS_HINT_def char_eval str_eval re_eval)
  have p: "prev_steps_of True ?st = [\<lparr>step_id = 2, step_text = ''- run uphill 60s Z3-Z5 HR''\<rparr>]"
    "target_repeat True ?st \<noteq> None" "\<not> repeat_first_step_pending ?st"
    by (simp_all add: prev_steps_of_def target_repeat_def init_machine_def)
  have s: "search (bounded_unit_at CHR ''s'') ''- run uphill 60s Z3-Z5 HR'' = Some ''60''"
    by (simp add: char_eval str_eval re_eval)
  have m: "search (bounded_unit_at CHR ''s'') ''- 2m ramp Z1-Z3 Pace'' = None"
    "search (bounded_unit_at CHR ''m'') ''- 2m ramp Z1-Z3 Pace'' = Some ''2''"
    by (simp_all add: char_eval str_eval re_eval)
  have n: "search (bounded_unit_at CHR ''s'') ''- 0.4km 4:55/km Pace'' = None"
    "search (bounded_unit_at CHR ''m'') ''- 0.4km 4:55/km Pace'' = None"
    by (simp_all add: char_eval str_eval re_eval)
  have j: "jog_dur (prev_steps_of True ?st) = ''120s''"
    using downhill_jog_rule [where ps = "prev_steps_of True ?st" and ds = "''60''"] p(1) s
    by (simp add: char_eval str_eval)
  have 1: "process_fragment ?frag False True ?st
         = Inr (emit ''- Press lap, Jog Downhill 120s Z1-Z2 Pace'' True ?st) \<and>
       map step_text (prev_steps_of True (emit ''- Press lap, Jog Downhill 120s Z1-Z2 Pace'' True ?st))
         = [''- run uphill 60s Z3-Z5 HR'', ''- Press lap, Jog Downhill 120s Z1-Z2 Pace'']"
    using downhill_jog_rule [where st = ?st and frag = ?frag and agc = False and ir = True] h
    unfolding j by (simp add: p)
  have 2: "jog_dur [\<lparr>step_id = 1, step_text = ''- 2m ramp Z1-Z3 Pace''\<rparr>] = ''4m''"
    using downhill_jog_rule [where ps = "[\<lparr>step_id = 1, step_text = ''- 2m ramp Z1-Z3 Pace''\<rparr>]" and ds = "''2''"] m
    by (simp add: char_eval str_eval)
  have 3: "jog_dur [\<lparr>step_id = 1, step_text = ''- 0.4km 4:55/km Pace''\<rparr>] = ''120s''"
    using downhill_jog_rule [where ps = "[\<lparr>step_id = 1, step_text = ''- 0.4km 4:55/km Pace''\<rparr>]"] n
    by simp
  from 1 2 3 show ?thesis by (simp only: Let_def) 
qed


text \<open>
  C8.  The partial flag of the machine is monotonic.  It starts false.  A fragment, a line,
  the whole loop with the closing of the repeat group and the final flush, and the
  post-processing pass leave a flag that is set as it is.  A fragment that turns the flag
  from false to true is an unrecognized one: it yields no distance and no duration, and the
  new machine is the old one with the flag set and the hills fallback step added if needed.
\<close>

theorem partial_flag_monotonic:
  "\<not> partial (init_machine name description) \<and>
   (process_fragment frag agc ir st = Inr st1 \<and> partial st \<longrightarrow> partial st1) \<and>
   (process_fragment frag agc ir st = Inr st1 \<and> \<not> partial st \<and> partial st1 \<longrightarrow>
      st1 = add_hills_fallback_if_needed (st\<lparr>partial := True\<rparr>) \<and>
      \<not> truthy (parse_duration (clean_line frag)) \<and>
      (\<exists>d. parse_distance (clean_line frag) = Inr d \<and> \<not> truthy d)) \<and>
   (process_line raw st = Inr st2 \<and> partial st \<longrightarrow> partial st2) \<and>
   (process_lines lns st = Inr st3 \<and> partial st \<longrightarrow> partial st3) \<and>
   (run_body lns st = Inr st4 \<and> partial st \<longrightarrow> partial st4) \<and>
   partial (postprocess_trailing_cooldown st) = partial st"
  using process_fragment_keeps_partial process_fragment_sets_partial process_line_keeps_partial
    process_lines_keeps_partial run_body_keeps_partial
  by (simp add: init_machine_def) blast

theorem partial_flag_monotonic_witness:
  "\<not> partial (init_machine ''Run'' ''Run'') \<and>
   process_fragment ''stretch'' True False (init_machine ''Run'' ''Run'')
     = Inr ((init_machine ''Run'' ''Run'')\<lparr>partial := True\<rparr>) \<and>
   \<not> truthy (parse_duration (clean_line ''stretch'')) \<and>
   (\<exists>st1. process_fragment ''1km'' True False ((init_machine ''Run'' ''Run'')\<lparr>partial := True\<rparr>) = Inr st1 \<and> partial st1) \<and>
   (\<exists>st2. process_line ''1km'' ((init_machine ''Run'' ''Run'')\<lparr>partial := True\<rparr>) = Inr st2 \<and> partial st2) \<and>
   (\<exists>st3. process_lines [''1km''] ((init_machine ''Run'' ''Run'')\<lparr>partial := True\<rparr>) = Inr st3 \<and> partial st3) \<and>
   (\<exists>st4. run_body [''1km''] ((init_machine ''Run'' ''Run'')\<lparr>partial := True\<rparr>) = Inr st4 \<and> partial st4)"
proof -
  let ?s0 = "init_machine ''Run'' ''Run''"
  let ?s1 = "?s0\<lparr>partial := True\<rparr>"
  have u: "process_fragment ''stretch'' True False ?s0 = Inr ?s1"
    by (simp add: all_eval cong: let_weak_cong)
  have p0: "\<not> partial ?s0" and p1: "partial ?s1" by (simp_all add: init_machine_def)
  have d: "\<not> truthy (parse_duration (clean_line ''stretch''))"
    using partial_flag_monotonic [of "''Run''" "''Run''" "''stretch''" True False ?s0 ?s1] u p0 p1
    by blast
  obtain st1 where f: "process_fragment ''1km'' True False ?s1 = Inr st1"
    by (simp add: all_eval cong: let_weak_cong)
  obtain st2 where l: "process_line ''1km'' ?s1 = Inr st2"
    by (simp add: all_eval cong: let_weak_cong)
  obtain st3 where ls: "process_lines [''1km''] ?s1 = Inr st3"
    using l by simp
  obtain st4 where r: "run_body [''1km''] ?s1 = Inr st4"
    using ls by (simp add: run_body_def)
  have "partial st1 \<and> partial st2 \<and> partial st3 \<and> partial st4"
    using partial_flag_monotonic [of "''Run''" "''Run''" "''1km''" True False ?s1 st1 "''1km''" st2 "[''1km'']" st3 st4]
      f l ls r p1 by blast
  with u p0 d f l ls r show ?thesis by blast
qed

text \<open>
  C9.  For every workout name and description, the machine that reaches
  \<^verbatim>\<open>_postprocess_trailing_cooldown\<close> is left as it is by that pass, so the groups before and
  after it are the same: every step whose identity is in \<^verbatim>\<open>cooldown_steps\<close> sits in a group
  titled \<open>Cooldown\<close>, and the pass only moves a flagged step out of a group titled
  \<open>Main Set\<close>.
\<close>

theorem flagged_relocation_is_a_no_op:
  "run_body body_lines (init_machine name description) = Inr st \<longrightarrow>
     postprocess_trailing_cooldown st = st \<and>
     groups (postprocess_trailing_cooldown st) = groups st \<and>
     (\<forall>g \<in> set (groups st). \<forall>s \<in> set (steps g).
        step_id s \<in> cooldown_steps st \<longrightarrow> title g = ''Cooldown'')"
proof
  assume "run_body body_lines (init_machine name description) = Inr st"
  then have ok: "ids_ok st" by (rule run_body_ids_ok)
  then have "postprocess_trailing_cooldown st = st" by (rule postprocess_ids_ok)
  moreover from ok have "\<forall>g \<in> set (groups st). \<forall>s \<in> set (steps g).
        step_id s \<in> cooldown_steps st \<longrightarrow> title g = ''Cooldown''"
    unfolding ids_ok_def all_groups_def group_ids_ok_def by blast
  ultimately show "postprocess_trailing_cooldown st = st \<and>
     groups (postprocess_trailing_cooldown st) = groups st \<and>
     (\<forall>g \<in> set (groups st). \<forall>s \<in> set (steps g).
        step_id s \<in> cooldown_steps st \<longrightarrow> title g = ''Cooldown'')" by simp
qed

theorem flagged_relocation_is_a_no_op_witness:
  "\<exists>st. run_body [''5km at 5:00/km'', ''2km cool down'']
          (init_machine ''Run'' (''Run'' @ [NL] @ ''5km at 5:00/km'' @ [NL] @ ''2km cool down'')) = Inr st \<and>
        map (\<lambda>g. (title g, map step_text (steps g))) (groups st)
          = [(''Main Set'', [''- 5km 5:00/km Pace'']), (''Cooldown'', [''- 2km ramp Z3-Z1 Pace''])] \<and>
        cooldown_steps st = {2} \<and>
        groups (postprocess_trailing_cooldown st) = groups st"
proof -
  let ?d = "''Run'' @ [NL] @ ''5km at 5:00/km'' @ [NL] @ ''2km cool down''"
  obtain st where r: "run_body [''5km at 5:00/km'', ''2km cool down''] (init_machine ''Run'' ?d) = Inr st"
    and g: "map (\<lambda>g. (title g, map step_text (steps g))) (groups st)
          = [(''Main Set'', [''- 5km 5:00/km Pace'']), (''Cooldown'', [''- 2km ramp Z3-Z1 Pace''])]"
    and c: "cooldown_steps st = {2}"
    by (simp add: all_eval cong: let_weak_cong)
  from flagged_relocation_is_a_no_op [of "[''5km at 5:00/km'', ''2km cool down'']" "''Run''" ?d st] r
  have "groups (postprocess_trailing_cooldown st) = groups st" by blast
  with r g c show ?thesis by (intro exI [of _ st]) simp
qed

text \<open>
  C10.  A description with a title line and at least one body line.  If the machine ends
  with no group, the result is the default with partial true, whatever the partial flag of
  the machine is.  In particular, when every body line is blank, noise or a separator, the
  run ends with no group and with the partial flag of the machine still false, and the
  result is the default with partial true.
\<close>

theorem no_step_gives_default:
  "(splitlines description = first_line # body_lines \<and> body_lines \<noteq> [] \<and>
    run_body body_lines (init_machine name description) = Inr st \<and> groups st = []
      \<longrightarrow> translate_workout_to_intervals_text name description
            = Inr (''Main Set'' @ [NL] @ ''- 60m Z1-Z2 Pace'', True))
   \<and> (splitlines description = first_line # body_lines \<and> body_lines \<noteq> [] \<and>
       (\<forall>ln \<in> set body_lines. skipped_line ln)
      \<longrightarrow> (\<exists>st'. run_body body_lines (init_machine name description) = Inr st' \<and>
                  groups st' = [] \<and> \<not> partial st')
          \<and> translate_workout_to_intervals_text name description
            = Inr (''Main Set'' @ [NL] @ ''- 60m Z1-Z2 Pace'', True))"
proof (intro conjI impI)
  assume "splitlines description = first_line # body_lines \<and> body_lines \<noteq> [] \<and>
    run_body body_lines (init_machine name description) = Inr st \<and> groups st = []"
  then show "translate_workout_to_intervals_text name description
            = Inr (''Main Set'' @ [NL] @ ''- 60m Z1-Z2 Pace'', True)"
    using translate_no_groups by blast
next
  assume a: "splitlines description = first_line # body_lines \<and> body_lines \<noteq> [] \<and>
       (\<forall>ln \<in> set body_lines. skipped_line ln)"
  then show "\<exists>st'. run_body body_lines (init_machine name description) = Inr st' \<and>
                  groups st' = [] \<and> \<not> partial st'"
    using run_body_skipped by blast
  then show "translate_workout_to_intervals_text name description
            = Inr (''Main Set'' @ [NL] @ ''- 60m Z1-Z2 Pace'', True)"
    using a translate_no_groups by blast
qed

theorem no_step_gives_default_witness:
  "splitlines (''Tempo'' @ [NL] @ ''---'' @ [NL] @ ''View in the Runna app'' @ [NL] @ ''  '')
     = [''Tempo'', ''---'', ''View in the Runna app'', ''  ''] \<and>
   skipped_line ''---'' \<and> skipped_line ''View in the Runna app'' \<and> skipped_line ''  '' \<and>
   (\<exists>st. run_body [''---'', ''View in the Runna app'', ''  '']
           (init_machine ''Tempo'' (''Tempo'' @ [NL] @ ''---'' @ [NL] @ ''View in the Runna app'' @ [NL] @ ''  ''))
         = Inr st \<and> groups st = [] \<and> \<not> partial st) \<and>
   translate_workout_to_intervals_text ''Tempo''
       (''Tempo'' @ [NL] @ ''---'' @ [NL] @ ''View in the Runna app'' @ [NL] @ ''  '')
     = Inr (''Main Set'' @ [NL] @ ''- 60m Z1-Z2 Pace'', True)"
proof -
  let ?d = "''Tempo'' @ [NL] @ ''---'' @ [NL] @ ''View in the Runna app'' @ [NL] @ ''  ''"
  let ?b = "[''---'', ''View in the Runna app'', ''  '']"
  have l: "splitlines ?d = ''Tempo'' # ?b"
    by (simp add: char_eval str_eval)
  have s: "skipped_line ''---''" "skipped_line ''View in the Runna app''" "skipped_line ''  ''"
    by (simp_all add: skipped_line_def char_eval str_eval re_eval)
  then have a: "\<forall>ln \<in> set ?b. skipped_line ln" by simp
  have 2: "(\<exists>st'. run_body ?b (init_machine ''Tempo'' ?d) = Inr st' \<and> groups st' = [] \<and> \<not> partial st') \<and>
      translate_workout_to_intervals_text ''Tempo'' ?d = Inr (''Main Set'' @ [NL] @ ''- 60m Z1-Z2 Pace'', True)"
    using no_step_gives_default [of ?d "''Tempo''" ?b "''Tempo''"] l a by blast
  then obtain st where st: "run_body ?b (init_machine ''Tempo'' ?d) = Inr st" "groups st = []"
    by blast
  have "translate_workout_to_intervals_text ''Tempo'' ?d = Inr (''Main Set'' @ [NL] @ ''- 60m Z1-Z2 Pace'', True)"
    using no_step_gives_default [of ?d "''Tempo''" ?b "''Tempo''" st] l st by blast
  with l s 2 show ?thesis by simp
qed

end
